theory Spec2Isabelle
  imports Main "HOL-Library.Word" "HOL-Library.Sublist" "HOL-Library.AList"
    "HOL-Library.Multiset"
begin

section \<open>Bytes, slices and arrays\<close>

text \<open>
  A Go \<^verbatim>\<open>[]byte\<close> is a window onto a backing array: the array it points into, the
  offset of its first element and its length. The reader of \<^verbatim>\<open>main\<close> works on one
  large array \<^verbatim>\<open>buf\<close> and allocates a new array with \<^verbatim>\<open>make\<close> for every image, so
  the arrays live in an explicit store, indexed by address; array 0 is \<^verbatim>\<open>buf\<close>.
\<close>

type_synonym byte = "8 word"
type_synonym frame = "byte list"
type_synonym store = "nat \<Rightarrow> nat \<Rightarrow> byte"

record slice =
  base :: nat
  off :: nat
  len :: nat

definition beginOfJPEG :: "byte list" where
  "beginOfJPEG = [0xff, 0xd8]"

definition endOfJPEG :: "byte list" where
  "endOfJPEG = [0xff, 0xd9]"

definition bufSize :: nat where
  "bufSize = 10 * 1024 * 1024"

definition buf :: slice where
  "buf = \<lparr>base = 0, off = 0, len = bufSize\<rparr>"

text \<open>The bytes a slice shows in a store.\<close>

definition bytes_of :: "store \<Rightarrow> slice \<Rightarrow> byte list" where
  "bytes_of h sl = map (h (base sl)) [off sl ..< off sl + len sl]"

text \<open>
  The slice expression \<^verbatim>\<open>s[lo:hi]\<close>. Every slice of this program has its capacity
  equal to its length when it is resliced; Go panics unless \<^verbatim>\<open>lo <= hi <= cap(s)\<close>.
\<close>

definition reslice :: "slice \<Rightarrow> nat \<Rightarrow> nat \<Rightarrow> slice option" where
  "reslice s lo hi =
     (if lo \<le> hi \<and> hi \<le> len s then Some \<lparr>base = base s, off = off s + lo, len = hi - lo\<rparr>
      else None)"

text \<open>
  The builtin \<^verbatim>\<open>copy(dst, src)\<close> copies \<^verbatim>\<open>min(len(dst), len(src))\<close> bytes and handles
  overlap as \<^verbatim>\<open>memmove\<close> does: the source bytes are read before any is written.
\<close>

definition go_copy :: "slice \<Rightarrow> byte list \<Rightarrow> store \<Rightarrow> store" where
  "go_copy dst src h =
     h(base dst := (\<lambda>i. if off dst \<le> i \<and> i < off dst + min (len dst) (length src)
                         then src ! (i - off dst) else h (base dst) i))"

text \<open>\<^verbatim>\<open>bytes.Index(s, sep)\<close>: the index of the first instance of \<^verbatim>\<open>sep\<close> in
  \<^verbatim>\<open>s\<close>; \<open>None\<close> stands for the result -1.\<close>

fun bytes_Index :: "byte list \<Rightarrow> byte list \<Rightarrow> nat option" where
  "bytes_Index [] sep = (if sep = [] then Some 0 else None)"
| "bytes_Index (x # xs) sep =
     (if prefix sep (x # xs) then Some 0 else map_option Suc (bytes_Index xs sep))"

text \<open>\<^verbatim>\<open>bytes.HasPrefix\<close> and \<^verbatim>\<open>bytes.HasSuffix\<close>.\<close>

definition bytes_HasPrefix :: "byte list \<Rightarrow> byte list \<Rightarrow> bool" where
  "bytes_HasPrefix s p = prefix p s"

definition bytes_HasSuffix :: "byte list \<Rightarrow> byte list \<Rightarrow> bool" where
  "bytes_HasSuffix s p = suffix p s"

section \<open>The frame reader (the read loop of main)\<close>

text \<open>
  The state of the loop: the store, the next unused array address, the cursors \<^verbatim>\<open>br\<close>
  and \<^verbatim>\<open>bw\<close>, every \<^verbatim>\<open>img\<close> slice made so far and the arguments of the
  \<^verbatim>\<open>go sendImage(img)\<close> statements executed so far, both in program order.
\<close>

record reader =
  heap :: store
  nexta :: nat
  br :: nat
  bw :: nat
  imgs :: "slice list"
  sent :: "slice list"

datatype halt = Fatal_read | Panic_makeslice | Panic_slice_bounds | Spin_buffer_full

definition reader_init :: reader where
  "reader_init = \<lparr>heap = (\<lambda>a i. 0), nexta = 1, br = 0, bw = 0, imgs = [], sent = []\<rparr>"

text \<open>
  One pass through the body of the extraction loop (lines 126 to 137), for the index
  \<open>idx\<close> that \<^verbatim>\<open>bytes.Index(buf[br:bw], endOfJPEG)\<close> returned. \<^verbatim>\<open>make([]byte, eoj-br)\<close>
  panics when its length is negative.
\<close>

definition extract_body :: "nat \<Rightarrow> reader \<Rightarrow> halt + reader" where
  "extract_body idx s =
     (let eoj = idx + length endOfJPEG in
      if eoj < br s then Inl Panic_makeslice
      else
        let img = \<lparr>base = nexta s, off = 0, len = eoj - br s\<rparr>;
            h1 = (heap s)(nexta s := (\<lambda>i. 0))
        in case reslice buf (br s) (br s + eoj) of
             None \<Rightarrow> Inl Panic_slice_bounds
           | Some src \<Rightarrow>
               let h2 = go_copy img (bytes_of h1 src) h1;
                   s' = s\<lparr>heap := h2, nexta := nexta s + 1, br := br s + eoj,
                          imgs := imgs s @ [img]\<rparr>
               in if \<not> bytes_HasPrefix (bytes_of h2 img) beginOfJPEG
                     \<or> \<not> bytes_HasSuffix (bytes_of h2 img) endOfJPEG
                  then Inr s'
                  else Inr (s'\<lparr>sent := sent s' @ [img]\<rparr>))"

text \<open>Facts the termination of the extraction loop rests on.\<close>

lemma bytes_Index_bound:
  "bytes_Index xs sep = Some i \<Longrightarrow> i + length sep \<le> length xs"
proof (induction xs arbitrary: i)
  case Nil
  then show ?case by (simp split: if_splits)
next
  case (Cons x xs)
  show ?case
  proof (cases "prefix sep (x # xs)")
    case True
    with Cons.prems show ?thesis by (auto dest: prefix_length_le)
  next
    case False
    with Cons.prems obtain j where "bytes_Index xs sep = Some j" "i = Suc j" by auto
    with Cons.IH show ?thesis by force
  qed
qed

lemma length_bytes_of [simp]: "length (bytes_of h sl) = len sl"
  by (simp add: bytes_of_def)

lemma reslice_Some:
  "reslice s lo hi = Some w \<Longrightarrow>
     lo \<le> hi \<and> hi \<le> len s \<and> base w = base s \<and> off w = off s + lo \<and> len w = hi - lo"
  by (auto simp: reslice_def split: if_splits)

lemma extract_body_cursor:
  "extract_body idx s = Inr s' \<Longrightarrow> br s' = br s + idx + length endOfJPEG \<and> bw s' = bw s"
  by (auto simp: extract_body_def Let_def split: if_splits option.splits)

text \<open>
  The extraction loop (line 125): search \<^verbatim>\<open>buf[br:bw]\<close> for the end marker, run the body
  while one is found. The result holds the panic that ended the loop, if any, and the
  state reached.
\<close>

function extract_images :: "reader \<Rightarrow> halt option \<times> reader" where
  "extract_images s =
     (case reslice buf (br s) (bw s) of
        None \<Rightarrow> (Some Panic_slice_bounds, s)
      | Some w \<Rightarrow>
          (case bytes_Index (bytes_of (heap s) w) endOfJPEG of
             None \<Rightarrow> (None, s)
           | Some idx \<Rightarrow>
               (case extract_body idx s of
                  Inl e \<Rightarrow> (Some e, s)
                | Inr s' \<Rightarrow> extract_images s')))"
  by pat_completeness auto
termination
proof (relation "measure (\<lambda>s. bw s - br s)")
  show "wf (measure (\<lambda>s. bw s - br s))" by simp
next
  fix s w idx s'
  assume w: "reslice buf (br s) (bw s) = Some w"
    and i: "bytes_Index (bytes_of (heap s) w) endOfJPEG = Some idx"
    and b: "extract_body idx s = Inr s'"
  from w have "br s \<le> bw s" "len w = bw s - br s" by (auto dest: reslice_Some)
  moreover from i have "idx + length endOfJPEG \<le> len w" by (auto dest: bytes_Index_bound)
  moreover have "length endOfJPEG = 2" by (simp add: endOfJPEG_def)
  ultimately show "(s', s) \<in> measure (\<lambda>s. bw s - br s)"
    using extract_body_cursor [OF b] by simp
qed

declare extract_images.simps [simp del]

text \<open>
  What the pipe hands to one call of \<^verbatim>\<open>out.Read\<close>: the bytes available, or an error
  (the end of the stream included). \<^verbatim>\<open>Read\<close> fills at most the slice it is given;
  bytes that do not fit stay in the pipe for the next call.
\<close>

datatype read_result = Data "byte list" | Read_error

text \<open>Lines 106 to 110: slide the unread remains to the beginning of \<^verbatim>\<open>buf\<close>.\<close>

definition slide :: "reader \<Rightarrow> halt + reader" where
  "slide s =
     (if br s > 0 then
        (case reslice buf (br s) (bw s) of
           None \<Rightarrow> Inl Panic_slice_bounds
         | Some src \<Rightarrow>
             Inr (s\<lparr>heap := go_copy buf (bytes_of (heap s) src) (heap s),
                    bw := bw s - br s, br := 0\<rparr>))
      else Inr s)"

text \<open>The measure of the read loop: what is left in the pipe, one more per read.\<close>

fun pending :: "read_result \<Rightarrow> nat" where
  "pending (Data c) = Suc (length c)"
| "pending Read_error = 1"

text \<open>
  The read loop (lines 104 to 139) over the results of the successive reads. It ends
  with \<open>Some\<close> of what stopped it: a read error (\<^verbatim>\<open>log.Fatal\<close>), a panic, or a full
  buffer, where \<^verbatim>\<open>Read\<close> on the empty slice \<^verbatim>\<open>buf[bw:]\<close> returns 0 and the loop repeats
  the same pass for ever. \<open>None\<close>: the loop waits in \<^verbatim>\<open>Read\<close> for more input.
\<close>

function main_loop :: "read_result list \<Rightarrow> reader \<Rightarrow> halt option \<times> reader" where
  "main_loop [] s = (case slide s of Inl e \<Rightarrow> (Some e, s) | Inr s1 \<Rightarrow> (None, s1))"
| "main_loop (Read_error # rs) s =
     (case slide s of Inl e \<Rightarrow> (Some e, s) | Inr s1 \<Rightarrow> (Some Fatal_read, s1))"
| "main_loop (Data c # rs) s =
     (case slide s of
        Inl e \<Rightarrow> (Some e, s)
      | Inr s1 \<Rightarrow>
          (case reslice buf (bw s1) (len buf) of
             None \<Rightarrow> (Some Panic_slice_bounds, s1)
           | Some dst \<Rightarrow>
               let n = min (len dst) (length c);
                   s2 = s1\<lparr>heap := go_copy dst c (heap s1), bw := bw s1 + n\<rparr>
               in if n = 0 then
                    (if c = [] then main_loop rs s2 else (Some Spin_buffer_full, s2))
                  else
                    (case extract_images s2 of
                       (Some e, s3) \<Rightarrow> (Some e, s3)
                     | (None, s3) \<Rightarrow>
                         main_loop (if n < length c then Data (drop n c) # rs else rs) s3)))"
  by pat_completeness auto
termination
  by (relation "measure (\<lambda>(rs, s). sum_list (map pending rs))") auto

declare main_loop.simps [simp del]

text \<open>The frames handed to \<^verbatim>\<open>sendImage\<close>, and every \<^verbatim>\<open>img\<close> made, as bytes.\<close>

definition frames_sent :: "reader \<Rightarrow> frame list" where
  "frames_sent s = map (bytes_of (heap s)) (sent s)"

definition candidates :: "reader \<Rightarrow> frame list" where
  "candidates s = map (bytes_of (heap s)) (imgs s)"

section \<open>The broadcast hub\<close>

text \<open>
  A buffered channel: its capacity, the queued frames (oldest first) and whether it was
  closed. Each channel of the program is made by one handler call and stored in the
  registry under that call's id only (ids are random UUIDs), so the registry entry
  holds the channel's state, and a handler reads its channel through its entry.
\<close>

record chan =
  capacity :: nat
  items :: "frame list"
  closed :: bool

definition make_chan :: "nat \<Rightarrow> chan" where
  "make_chan n = \<lparr>capacity = n, items = [], closed = False\<rparr>"


datatype stall = Send_blocks | Panic_send_on_closed

text \<open>\<^verbatim>\<open>c <- x\<close>: panics on a closed channel, blocks while the buffer is full.\<close>

definition chan_send :: "chan \<Rightarrow> frame \<Rightarrow> stall + chan" where
  "chan_send c x =
     (if closed c then Inl Panic_send_on_closed
      else if length (items c) < capacity c then Inr (c\<lparr>items := items c @ [x]\<rparr>)
      else Inl Send_blocks)"

text \<open>\<^verbatim>\<open><-c\<close> on a channel that is not closed: \<open>None\<close> while it is empty (the receiver
  blocks).\<close>

definition chan_recv :: "chan \<Rightarrow> (frame \<times> chan) option" where
  "chan_recv c = (case items c of [] \<Rightarrow> None | x # xs \<Rightarrow> Some (x, c\<lparr>items := xs\<rparr>))"

datatype log_line = Registered_new_requester string | Removed_requester string | Sent_frame nat

record hub =
  requester :: "(string \<times> chan) list"
  debug_log :: "log_line list"

definition maxBacklog :: nat where
  "maxBacklog = 5"

fun send_each :: "frame \<Rightarrow> (string \<times> chan) list \<Rightarrow> stall + (string \<times> chan) list" where
  "send_each jpg [] = Inr []"
| "send_each jpg ((uid, c) # rest) =
     (if length (items c) < maxBacklog then
        (case chan_send c jpg of
           Inl e \<Rightarrow> Inl e
         | Inr c' \<Rightarrow>
             (case send_each jpg rest of
                Inl e \<Rightarrow> Inl e
              | Inr rest' \<Rightarrow> Inr ((uid, c') # rest')))
      else
        (case send_each jpg rest of
           Inl e \<Rightarrow> Inl e
         | Inr rest' \<Rightarrow> Inr ((uid, c) # rest')))"

definition sendImage :: "frame \<Rightarrow> hub \<Rightarrow> stall + hub" where
  "sendImage jpg h =
     (if length (requester h) = 0 then Inr h
      else
        (case send_each jpg (requester h) of
           Inl e \<Rightarrow> Inl e
         | Inr r \<Rightarrow> Inr (h\<lparr>requester := r, debug_log := debug_log h @ [Sent_frame (length r)]\<rparr>)))"

definition registerImgChan :: "string \<Rightarrow> chan \<Rightarrow> hub \<Rightarrow> hub" where
  "registerImgChan uid ic h =
     h\<lparr>requester := AList.update uid ic (requester h),
       debug_log := debug_log h @ [Registered_new_requester uid]\<rparr>"

definition deregisterImgChan :: "string \<Rightarrow> hub \<Rightarrow> hub" where
  "deregisterImgChan uid h =
     h\<lparr>requester := AList.delete uid (requester h),
       debug_log := debug_log h @ [Removed_requester uid]\<rparr>"

section \<open>HTTP requests and responses\<close>

text \<open>
  Of a request the handlers read the method only. A response is what the handler made
  of its \<^verbatim>\<open>ResponseWriter\<close>: the status line (\<open>None\<close> while nothing was written; the first
  write without one sends 200), the header fields and the body, item by item.
\<close>

record request =
  meth :: string

datatype body_item = Text string | Part_header "(string \<times> string) list" | Image_data frame
  | Closing_boundary

record response =
  status :: "nat option"
  headers :: "(string \<times> string) list"
  body :: "body_item list"

definition empty_response :: response where
  "empty_response = \<lparr>status = None, headers = [], body = []\<rparr>"

definition header_Add :: "string \<Rightarrow> string \<Rightarrow> response \<Rightarrow> response" where
  "header_Add k v res = res\<lparr>headers := headers res @ [(k, v)]\<rparr>"

definition header_Set :: "string \<Rightarrow> string \<Rightarrow> response \<Rightarrow> response" where
  "header_Set k v res = res\<lparr>headers := filter (\<lambda>kv. fst kv \<noteq> k) (headers res) @ [(k, v)]\<rparr>"

definition implicit_ok :: "response \<Rightarrow> response" where
  "implicit_ok res = (case status res of None \<Rightarrow> res\<lparr>status := Some 200\<rparr> | Some c \<Rightarrow> res)"

text \<open>\<^verbatim>\<open>http.Error\<close>: the status line with the given code and the message as a line of
  plain text.\<close>

definition http_Error :: "response \<Rightarrow> string \<Rightarrow> nat \<Rightarrow> response" where
  "http_Error res msg code =
     (header_Set ''X-Content-Type-Options'' ''nosniff''
        (header_Set ''Content-Type'' ''text/plain; charset=utf-8'' res))
       \<lparr>status := Some code, body := body res @ [Text (msg @ [CHR 0x0A])]\<rparr>"

fun strconv_Itoa :: "nat \<Rightarrow> string" where
  "strconv_Itoa n =
     (if n < 10 then [''0123456789'' ! n]
      else strconv_Itoa (n div 10) @ [''0123456789'' ! (n mod 10)])"

section \<open>The streaming session (handleMJPEG)\<close>

text \<open>
  What the closure of lines 39 to 51 met on the connection: both writes went through,
  \<^verbatim>\<open>CreatePart\<close> failed, or the part was created and writing the image failed.
\<close>

datatype write_result = Write_ok | CreatePart_failed | Write_failed

definition write_part :: "frame \<Rightarrow> write_result \<Rightarrow> response \<Rightarrow> response" where
  "write_part img w res =
     (let partHeader = [(''Content-Type'', ''image/jpeg''),
                        (''Content-Length'', strconv_Itoa (length img))];
          res1 = implicit_ok res
      in case w of
           CreatePart_failed \<Rightarrow> res1
         | Write_failed \<Rightarrow> res1\<lparr>body := body res1 @ [Part_header partHeader]\<rparr>
         | Write_ok \<Rightarrow> res1\<lparr>body := body res1 @ [Part_header partHeader, Image_data img]\<rparr>)"

text \<open>
  One pass of the \<^verbatim>\<open>select\<close>: the close notification fired, or a frame arrived on
  \<^verbatim>\<open>imgs\<close> and writing it had the given result. The channel parameter \<^verbatim>\<open>imgs\<close> is the
  sequence of frames received from it.
\<close>

datatype select_case = Close_notify | Img frame write_result

datatype exit_path = Method_not_allowed | Client_closed | Too_many_errors

fun failed_write :: "select_case \<Rightarrow> bool" where
  "failed_write Close_notify = False"
| "failed_write (Img img w) = (w \<noteq> Write_ok)"

text \<open>The frames whose write went through, and the images a body holds.\<close>

fun successes :: "select_case list \<Rightarrow> frame list" where
  "successes [] = []"
| "successes (Close_notify # cs) = successes cs"
| "successes (Img img w # cs) = (if w = Write_ok then img # successes cs else successes cs)"

fun images_of :: "body_item list \<Rightarrow> frame list" where
  "images_of [] = []"
| "images_of (Image_data img # bs) = img # images_of bs"
| "images_of (b # bs) = images_of bs"

text \<open>
  The loop of lines 33 to 66 with its counter \<^verbatim>\<open>errC\<close>. \<open>None\<close>: the session is still
  waiting in \<^verbatim>\<open>select\<close>.
\<close>

fun stream_loop :: "select_case list \<Rightarrow> nat \<Rightarrow> response \<Rightarrow> exit_path option \<times> nat \<times> response" where
  "stream_loop [] errC res = (None, errC, res)"
| "stream_loop (Close_notify # cs) errC res = (Some Client_closed, errC, res)"
| "stream_loop (Img img w # cs) errC res =
     (if w \<noteq> Write_ok then
        (if errC + 1 > 5 then (Some Too_many_errors, errC + 1, write_part img w res)
         else stream_loop cs (errC + 1) (write_part img w res))
      else stream_loop cs 0 (write_part img w res))"

text \<open>\<^verbatim>\<open>mimeWriter.Close()\<close>, deferred at line 24: the closing boundary.\<close>

definition mime_Close :: "response \<Rightarrow> response" where
  "mime_Close res = (implicit_ok res)\<lparr>body := body (implicit_ok res) @ [Closing_boundary]\<rparr>"

text \<open>Lines 26 to 28: the header fields of the stream.\<close>

definition stream_headers :: "response \<Rightarrow> response" where
  "stream_headers res =
     header_Add ''Content-Type'' ''multipart/x-mixed-replace;boundary=--boundary''
       (header_Add ''Cache-Control'' ''no-store, no-cache''
          (header_Add ''Connection'' ''close'' res))"

definition handleMJPEG :: "request \<Rightarrow> select_case list \<Rightarrow> response \<Rightarrow> exit_path option \<times> nat \<times> response" where
  "handleMJPEG r cs res =
     (if meth r \<noteq> ''GET'' then
        (Some Method_not_allowed, 0, http_Error res ''405 Method Not Allowed'' 405)
      else
        case stream_loop cs 0 (stream_headers res) of
             (None, errC, res2) \<Rightarrow> (None, errC, res2)
           | (Some e, errC, res2) \<Rightarrow> (Some e, errC, mime_Close res2))"

section \<open>The handlers of the two routes\<close>



section \<open>Goroutines: the sendImage calls in flight\<close>

text \<open>
  Line 137 starts a goroutine for every validated frame, and the calls of \<^verbatim>\<open>sendImage\<close>
  run side by side: each holds the read lock only, so nothing keeps two of them apart.
  A goroutine is at one of four places. It was started and has not taken the read lock
  yet; it is at the head of the loop of line 150, with the ids of the entries it still
  has to visit (a range over a map visits every entry once, in an order of its own); it
  has found \<^verbatim>\<open>len(c) < maxBacklog\<close> true for an entry and is about to send on that
  channel; or it has returned.
\<close>

datatype progress = Spawned | Ranging "string list" | Sending string "string list" | Returned

record goroutine =
  arg :: frame
  pc :: progress

text \<open>
  A scheduling event is one step of one party. The reader executes \<^verbatim>\<open>go sendImage(img)\<close>.
  A goroutine takes the read lock, tests \<^verbatim>\<open>len(requester)\<close> and starts its range in the
  given order; or it executes the head of the loop with the test of line 151 (after the
  last entry: the log line and the return); or it executes the send of line 152, which
  waits while the channel is full. A session receives from its channel. A handler call
  registers a channel of capacity 10 under its id, or deregisters its id: both take the
  write lock, so they wait as long as a goroutine holds the read lock.
\<close>

datatype sched_event =
    Go_sendImage frame
  | Begin nat "string list"
  | Test nat
  | Send nat
  | Receive string
  | Register string
  | Deregister string

text \<open>
  Beside the registry and the goroutines, the world keeps a record of what happened:
  the frames handed to \<^verbatim>\<open>go sendImage\<close>, in the order of validation; the sends that were
  executed, the tests of line 151 that failed and the receives, each with the id of the
  subscriber, in the order in which they happened.
\<close>

record world =
  the_hub :: hub
  goroutines :: "goroutine list"
  handed :: "frame list"
  enqueued :: "(string \<times> frame) list"
  dropped :: "(string \<times> frame) list"
  delivered :: "(string \<times> frame) list"

definition world_of :: "hub \<Rightarrow> world" where
  "world_of h =
     \<lparr>the_hub = h, goroutines = [], handed = [], enqueued = [], dropped = [], delivered = []\<rparr>"

definition goto :: "nat \<Rightarrow> progress \<Rightarrow> world \<Rightarrow> world" where
  "goto i p w = w\<lparr>goroutines := (goroutines w)[i := (goroutines w ! i)\<lparr>pc := p\<rparr>]\<rparr>"

fun holds_RLock :: "goroutine \<Rightarrow> bool" where
  "holds_RLock g = (case pc g of Ranging us \<Rightarrow> True | Sending u us \<Rightarrow> True | _ \<Rightarrow> False)"

definition lock_free :: "world \<Rightarrow> bool" where
  "lock_free w = list_all (\<lambda>g. \<not> holds_RLock g) (goroutines w)"

text \<open>
  The registry cannot change while a goroutine is in its loop, so the entry of the id a
  goroutine has reached is there; the model goes on to the next id if it is not.
\<close>

fun step :: "sched_event \<Rightarrow> world \<Rightarrow> stall + world" where
  "step (Go_sendImage f) w =
     Inr (w\<lparr>goroutines := goroutines w @ [\<lparr>arg = f, pc = Spawned\<rparr>],
            handed := handed w @ [f]\<rparr>)"
| "step (Begin i order) w =
     (if i < length (goroutines w) \<and> pc (goroutines w ! i) = Spawned then
        (if length (requester (the_hub w)) = 0 then Inr (goto i Returned w)
         else if distinct order \<and> set order = set (map fst (requester (the_hub w)))
         then Inr (goto i (Ranging order) w)
         else Inr w)
      else Inr w)"
| "step (Test i) w =
     (if i < length (goroutines w) then
        (case pc (goroutines w ! i) of
           Ranging [] \<Rightarrow>
             Inr ((goto i Returned w)
                    \<lparr>the_hub := (the_hub w)\<lparr>debug_log := debug_log (the_hub w)
                        @ [Sent_frame (length (requester (the_hub w)))]\<rparr>\<rparr>)
         | Ranging (u # us) \<Rightarrow>
             (case map_of (requester (the_hub w)) u of
                None \<Rightarrow> Inr (goto i (Ranging us) w)
              | Some c \<Rightarrow>
                  if length (items c) < maxBacklog then Inr (goto i (Sending u us) w)
                  else Inr ((goto i (Ranging us) w)
                              \<lparr>dropped := dropped w @ [(u, arg (goroutines w ! i))]\<rparr>))
         | _ \<Rightarrow> Inr w)
      else Inr w)"
| "step (Send i) w =
     (if i < length (goroutines w) then
        (case pc (goroutines w ! i) of
           Sending u us \<Rightarrow>
             (case map_of (requester (the_hub w)) u of
                None \<Rightarrow> Inr (goto i (Ranging us) w)
              | Some c \<Rightarrow>
                  (case chan_send c (arg (goroutines w ! i)) of
                     Inl Send_blocks \<Rightarrow> Inr w
                   | Inl Panic_send_on_closed \<Rightarrow> Inl Panic_send_on_closed
                   | Inr c' \<Rightarrow>
                       Inr ((goto i (Ranging us) w)
                              \<lparr>the_hub := (the_hub w)\<lparr>requester :=
                                  AList.update u c' (requester (the_hub w))\<rparr>,
                               enqueued := enqueued w @ [(u, arg (goroutines w ! i))]\<rparr>)))
         | _ \<Rightarrow> Inr w)
      else Inr w)"
| "step (Receive uid) w =
     (case map_of (requester (the_hub w)) uid of
        None \<Rightarrow> Inr w
      | Some c \<Rightarrow>
          (case chan_recv c of
             None \<Rightarrow> Inr w
           | Some (x, c') \<Rightarrow>
               Inr (w\<lparr>the_hub := (the_hub w)\<lparr>requester := AList.update uid c' (requester (the_hub w))\<rparr>,
                      delivered := delivered w @ [(uid, x)]\<rparr>)))"
| "step (Register uid) w =
     (if lock_free w then Inr (w\<lparr>the_hub := registerImgChan uid (make_chan 10) (the_hub w)\<rparr>)
      else Inr w)"
| "step (Deregister uid) w =
     (if lock_free w then Inr (w\<lparr>the_hub := deregisterImgChan uid (the_hub w)\<rparr>)
      else Inr w)"

fun run :: "sched_event list \<Rightarrow> world \<Rightarrow> stall + world" where
  "run [] w = Inr w"
| "run (e # es) w = (case step e w of Inl x \<Rightarrow> Inl x | Inr w' \<Rightarrow> run es w')"

text \<open>
  For one session: the frames it received, the frames waiting in its queue, the frames
  sent on its channel and the frames dropped for it, each in the order of the events.
\<close>

definition received :: "string \<Rightarrow> world \<Rightarrow> frame list" where
  "received uid w = map snd (filter (\<lambda>d. fst d = uid) (delivered w))"

definition queue_of :: "string \<Rightarrow> hub \<Rightarrow> frame list" where
  "queue_of uid h = (case map_of (requester h) uid of None \<Rightarrow> [] | Some c \<Rightarrow> items c)"

definition sent_to :: "string \<Rightarrow> world \<Rightarrow> frame list" where
  "sent_to uid w = map snd (filter (\<lambda>d. fst d = uid) (enqueued w))"

definition dropped_for :: "string \<Rightarrow> world \<Rightarrow> frame list" where
  "dropped_for uid w = map snd (filter (\<lambda>d. fst d = uid) (dropped w))"



text \<open>Every call of \<^verbatim>\<open>sendImage\<close> that was started has returned.\<close>

definition all_returned :: "world \<Rightarrow> bool" where
  "all_returned w = list_all (\<lambda>g. pc g = Returned) (goroutines w)"

text \<open>
  What a call still has to do for a session: it has not begun (it will range over the
  registry when it does), or the session's id is among the ids it has not passed yet.
  The frames of these calls are the frames still to come for the session.
\<close>

definition yet_to_visit :: "string \<Rightarrow> goroutine \<Rightarrow> bool" where
  "yet_to_visit uid g =
     (case pc g of
        Spawned \<Rightarrow> True
      | Ranging us \<Rightarrow> uid \<in> set us
      | Sending u us \<Rightarrow> u = uid \<or> uid \<in> set us
      | Returned \<Rightarrow> False)"

definition to_come :: "string \<Rightarrow> goroutine list \<Rightarrow> frame multiset" where
  "to_come uid gs = mset (map arg (filter (yet_to_visit uid) gs))"

text \<open>
  The registry as the handlers leave it: one entry per id, every registered channel
  open and with room up to the backlog mark.
\<close>

definition hub_ok :: "hub \<Rightarrow> bool" where
  "hub_ok h =
     (distinct (map fst (requester h))
      \<and> list_all (\<lambda>e. \<not> closed (snd e) \<and> maxBacklog \<le> capacity (snd e)) (requester h))"

definition hub_init :: hub where
  "hub_init = \<lparr>requester = [], debug_log = []\<rparr>"

text \<open>A small JPEG for the examples: the two markers around one byte.\<close>

definition sample_jpeg :: "byte \<Rightarrow> frame" where
  "sample_jpeg x = [0xff, 0xd8, x, 0xff, 0xd9]"

section \<open>The error budget of a streaming session\<close>

lemma images_of_append: "images_of (xs @ ys) = images_of xs @ images_of ys"
  by (induction xs rule: images_of.induct) auto

lemma body_implicit_ok [simp]: "body (implicit_ok res) = body res"
  by (simp add: implicit_ok_def split: option.splits)

lemma images_of_write_part:
  "images_of (body (write_part img w res)) =
     images_of (body res) @ (if w = Write_ok then [img] else [])"
  by (cases w) (simp_all add: write_part_def Let_def images_of_append)

lemma stream_loop_alive:
  "list_all failed_write fs \<Longrightarrow> n + length fs \<le> 5 \<Longrightarrow>
     \<exists>res'. stream_loop (fs @ rest) n res = stream_loop rest (n + length fs) res'"
proof (induction fs arbitrary: n res)
  case Nil
  then show ?case by auto
next
  case (Cons f fs)
  then obtain img w where f: "f = Img img w" "w \<noteq> Write_ok"
    by (cases f) auto
  from Cons.prems have "list_all failed_write fs" "Suc n + length fs \<le> 5" by auto
  from Cons.IH [OF this] obtain res' where
    "stream_loop (fs @ rest) (Suc n) (write_part img w res) =
       stream_loop rest (Suc n + length fs) res'"
    by blast
  with f Cons.prems show ?case by auto
qed

lemma stream_loop_killed:
  "list_all failed_write fs \<Longrightarrow> n \<le> 5 \<Longrightarrow> 5 < n + length fs \<Longrightarrow>
     fst (stream_loop (fs @ rest) n res) = Some Too_many_errors"
proof (induction fs arbitrary: n res)
  case Nil
  then show ?case by simp
next
  case (Cons f fs)
  then obtain img w where f: "f = Img img w" "w \<noteq> Write_ok"
    by (cases f) auto
  show ?case
  proof (cases "n = 5")
    case True
    with f show ?thesis by simp
  next
    case False
    with Cons.prems have "list_all failed_write fs" "Suc n \<le> 5" "5 < Suc n + length fs"
      by auto
    from Cons.IH [OF this] f False Cons.prems show ?thesis by auto
  qed
qed

lemma stream_loop_images:
  "stream_loop cs n res = (None, m, res') \<Longrightarrow>
     images_of (body res') = images_of (body res) @ successes cs"
proof (induction cs n res rule: stream_loop.induct)
  case (1 errC res)
  then show ?case by simp
next
  case (2 cs errC res)
  then show ?case by simp
next
  case (3 img w cs errC res)
  then show ?case
    by (auto simp: images_of_write_part split: if_splits)
qed

lemma handleMJPEG_GET:
  "meth r = ''GET'' \<Longrightarrow>
     fst (handleMJPEG r cs res) = fst (stream_loop cs 0 (stream_headers res))
     \<and> fst (snd (handleMJPEG r cs res)) = fst (snd (stream_loop cs 0 (stream_headers res)))"
  by (auto simp: handleMJPEG_def split: prod.splits option.splits)

text \<open>
  The condition of claim C3, named for the proofs: starting from a counter \<open>n\<close>, the
  select cases \<open>cs\<close> hold, before any close notification, a run of failed writes that
  takes the counter past 5. The run either starts at once and is counted on top of \<open>n\<close>,
  or it starts later and is longer than 5 by itself.
\<close>

definition too_many :: "nat \<Rightarrow> select_case list \<Rightarrow> bool" where
  "too_many n cs \<longleftrightarrow>
     (\<exists>pre fs rest. cs = pre @ fs @ rest \<and> Close_notify \<notin> set pre
        \<and> list_all failed_write fs \<and> ((pre = [] \<and> 5 < n + length fs) \<or> 5 < length fs))"

lemma too_manyI1:
  "list_all failed_write fs \<Longrightarrow> 5 < n + length fs \<Longrightarrow> too_many n (fs @ rest)"
  unfolding too_many_def
  by (rule exI [of _ "[]"], rule exI [of _ fs], rule exI [of _ rest]) simp

lemma too_manyI2:
  "Close_notify \<notin> set pre \<Longrightarrow> list_all failed_write fs \<Longrightarrow> 5 < length fs \<Longrightarrow>
     too_many n (pre @ fs @ rest)"
  unfolding too_many_def
  by (rule exI [of _ pre], rule exI [of _ fs], rule exI [of _ rest]) simp

lemma too_manyE:
  assumes "too_many n cs"
  obtains (counter) fs rest where "cs = fs @ rest" "list_all failed_write fs"
      "5 < n + length fs"
    | (later) p pre fs rest where "cs = p # pre @ fs @ rest" "p \<noteq> Close_notify"
      "Close_notify \<notin> set pre" "list_all failed_write fs" "5 < length fs"
proof -
  from assms obtain pre fs rest where d: "cs = pre @ fs @ rest" "Close_notify \<notin> set pre"
    "list_all failed_write fs" "(pre = [] \<and> 5 < n + length fs) \<or> 5 < length fs"
    unfolding too_many_def by blast
  show thesis
  proof (cases pre)
    case Nil
    with d have "cs = fs @ rest" "5 < n + length fs" by auto
    with d(3) show thesis using counter by blast
  next
    case (Cons p pre')
    with d have "cs = p # pre' @ fs @ rest" "p \<noteq> Close_notify" "Close_notify \<notin> set pre'"
      "5 < length fs"
      by auto
    with d(3) show thesis using later by blast
  qed
qed

lemma too_many_Nil: "n \<le> 5 \<Longrightarrow> \<not> too_many n []"
  by (auto elim!: too_manyE)

lemma too_many_Close: "n \<le> 5 \<Longrightarrow> \<not> too_many n (Close_notify # cs)"
proof
  assume n: "n \<le> 5" and "too_many n (Close_notify # cs)"
  from this(2) show False
  proof (cases rule: too_manyE)
    case (counter fs rest)
    with n show False by (cases fs) auto
  next
    case (later p pre fs rest)
    then show False by simp
  qed
qed

lemma too_many_ok:
  assumes "n \<le> 5"
  shows "too_many n (Img img Write_ok # cs) \<longleftrightarrow> too_many 0 cs"
proof
  assume "too_many n (Img img Write_ok # cs)"
  then show "too_many 0 cs"
  proof (cases rule: too_manyE)
    case (counter fs rest)
    with assms show ?thesis by (cases fs) auto
  next
    case (later p pre fs rest)
    then have "cs = pre @ fs @ rest" by simp
    with later show ?thesis by (simp add: too_manyI2)
  qed
next
  assume "too_many 0 cs"
  then show "too_many n (Img img Write_ok # cs)"
  proof (cases rule: too_manyE)
    case (counter fs rest)
    then have "Close_notify \<notin> set [Img img Write_ok]" "5 < length fs" by simp_all
    from too_manyI2 [OF this(1) counter(2) this(2), of n rest] counter(1)
    show ?thesis by simp
  next
    case (later p pre fs rest)
    then have "Close_notify \<notin> set (Img img Write_ok # p # pre)" by auto
    from too_manyI2 [OF this later(4,5), of n rest] later(1)
    show ?thesis by simp
  qed
qed

lemma too_many_fail:
  assumes "w \<noteq> Write_ok"
  shows "too_many n (Img img w # cs) \<longleftrightarrow> n \<ge> 5 \<or> too_many (Suc n) cs"
proof
  assume "too_many n (Img img w # cs)"
  then show "n \<ge> 5 \<or> too_many (Suc n) cs"
  proof (cases rule: too_manyE)
    case (counter fs rest)
    show ?thesis
    proof (cases fs)
      case Nil
      with counter show ?thesis by simp
    next
      case (Cons f fs')
      with counter have "cs = fs' @ rest" "list_all failed_write fs'" "5 < Suc n + length fs'"
        by auto
      then show ?thesis by (simp add: too_manyI1)
    qed
  next
    case (later p pre fs rest)
    then have "cs = pre @ fs @ rest" by simp
    with later show ?thesis by (simp add: too_manyI2)
  qed
next
  assume a: "n \<ge> 5 \<or> too_many (Suc n) cs"
  have f: "list_all failed_write [Img img w]" using assms by simp
  show "too_many n (Img img w # cs)"
  proof (cases "n \<ge> 5")
    case True
    then have "5 < n + length [Img img w]" by simp
    from too_manyI1 [OF f this, of cs] show ?thesis by simp
  next
    case False
    with a have "too_many (Suc n) cs" by simp
    then show ?thesis
    proof (cases rule: too_manyE)
      case (counter fs rest)
      then have "list_all failed_write (Img img w # fs)" "5 < n + length (Img img w # fs)"
        using assms by simp_all
      from too_manyI1 [OF this, of rest] counter(1) show ?thesis by simp
    next
      case (later p pre fs rest)
      then have "Close_notify \<notin> set (Img img w # p # pre)" by auto
      from too_manyI2 [OF this later(4,5), of n rest] later(1)
      show ?thesis by simp
    qed
  qed
qed

lemma stream_loop_too_many:
  "n \<le> 5 \<Longrightarrow> fst (stream_loop cs n res) = Some Too_many_errors \<longleftrightarrow> too_many n cs"
proof (induction cs n res rule: stream_loop.induct)
  case (1 errC res)
  then show ?case by (simp add: too_many_Nil)
next
  case (2 cs errC res)
  then show ?case by (simp add: too_many_Close)
next
  case (3 img w cs errC res)
  show ?case
  proof (cases "w = Write_ok")
    case True
    with 3 show ?thesis by (simp add: too_many_ok)
  next
    case False
    show ?thesis
    proof (cases "errC = 5")
      case True
      with False show ?thesis by (simp add: too_many_fail)
    next
      case e: False
      with "3.prems" have "errC + 1 \<le> 5" "\<not> errC + 1 > 5" by simp_all
      with "3.IH"(1) [OF False] False e "3.prems" show ?thesis
        by (simp add: too_many_fail)
    qed
  qed
qed

lemma stream_loop_counter:
  "stream_loop cs n res = (None, m, res') \<Longrightarrow>
     m = (if list_all failed_write cs then n + length cs
          else length (takeWhile failed_write (rev cs)))"
proof (induction cs n res rule: stream_loop.induct)
  case (1 errC res)
  then show ?case by simp
next
  case (2 cs errC res)
  then show ?case by simp
next
  case (3 img w cs errC res)
  show ?case
  proof (cases "w = Write_ok")
    case True
    with 3 have "m = (if list_all failed_write cs then 0 + length cs
          else length (takeWhile failed_write (rev cs)))"
      by simp
    with True show ?thesis
      by (auto simp: takeWhile_append list_all_iff)
  next
    case False
    with "3.prems" have e: "\<not> errC + 1 > 5"
      by (auto split: if_splits)
    with 3 False have "m = (if list_all failed_write cs then (errC + 1) + length cs
          else length (takeWhile failed_write (rev cs)))"
      by simp
    with False show ?thesis
      by (auto simp: takeWhile_append list_all_iff)
  qed
qed

lemma too_many_six:
  "too_many 0 cs \<longleftrightarrow>
     (\<exists>pre fs rest. cs = pre @ fs @ rest \<and> Close_notify \<notin> set pre
        \<and> list_all failed_write fs \<and> length fs = 6)"
proof
  assume "too_many 0 cs"
  then obtain pre fs rest where d: "cs = pre @ fs @ rest" "Close_notify \<notin> set pre"
    "list_all failed_write fs" "5 < length fs"
    unfolding too_many_def by auto
  have "fs = take 6 fs @ drop 6 fs" by simp
  with d(1) have "cs = pre @ take 6 fs @ (drop 6 fs @ rest)" by simp
  moreover from d(3) have "list_all failed_write (take 6 fs)"
    by (auto simp: list_all_iff dest: in_set_takeD)
  moreover from d(4) have "length (take 6 fs) = 6" by simp
  ultimately show "\<exists>pre fs rest. cs = pre @ fs @ rest \<and> Close_notify \<notin> set pre
        \<and> list_all failed_write fs \<and> length fs = 6"
    using d(2) by blast
next
  assume "\<exists>pre fs rest. cs = pre @ fs @ rest \<and> Close_notify \<notin> set pre
        \<and> list_all failed_write fs \<and> length fs = 6"
  then obtain pre fs rest where d: "cs = pre @ fs @ rest" "Close_notify \<notin> set pre"
    "list_all failed_write fs" "length fs = 6"
    by blast
  from d(4) have "5 < length fs" by simp
  from too_manyI2 [OF d(2,3) this, of 0 rest] d(1) show "too_many 0 cs" by simp
qed


text \<open>
  Claim C3. A streaming session ends its connection exactly when the count of
  consecutive failed part writes exceeds 5. Six failed writes in a row end the session
  of a GET request with the exit for too many errors, whatever follows; five failed
  writes and then a good one leave it running with the counter back at 0. In general,
  from a counter \<open>n\<close> of at most 5, a run of failed writes ends the loop if and only if
  the counter passes 5 within it. A frame is written at most once: while the session
  runs, the images in the response are the frames whose write went through, in order,
  so a frame whose write failed never shows up later.

  The failures that count are the consecutive ones. The session of a GET request takes
  the exit for too many errors if and only if its select cases hold, before any close
  notification, six failed writes in a row; from a counter \<open>n\<close> the first run is
  counted on top of \<open>n\<close>. A good write puts the counter back to 0 whatever it was,
  and as long as the loop runs the counter is the number of failed writes since the
  last good one (on top of \<open>n\<close> if there was none).
\<close>

theorem handleMJPEG_error_budget:
  "(meth r = ''GET'' \<and> list_all failed_write fs \<and> length fs = 6 \<longrightarrow>
      fst (handleMJPEG r (fs @ rest) res) = Some Too_many_errors)
   \<and> (meth r = ''GET'' \<and> list_all failed_write fs \<and> length fs = 5 \<longrightarrow>
      fst (handleMJPEG r (fs @ [Img img Write_ok]) res) = None
      \<and> fst (snd (handleMJPEG r (fs @ [Img img Write_ok]) res)) = 0)
   \<and> (list_all failed_write fs \<and> n \<le> 5 \<longrightarrow>
      (fst (stream_loop fs n res) = Some Too_many_errors \<longleftrightarrow> 5 < n + length fs))
   \<and> (stream_loop cs n res = (None, m, res') \<longrightarrow>
      images_of (body res') = images_of (body res) @ successes cs)
   \<and> (meth r = ''GET'' \<longrightarrow>
      (fst (handleMJPEG r cs res) = Some Too_many_errors \<longleftrightarrow>
         (\<exists>pre fs rest. cs = pre @ fs @ rest \<and> Close_notify \<notin> set pre
            \<and> list_all failed_write fs \<and> length fs = 6)))
   \<and> (n \<le> 5 \<longrightarrow>
      (fst (stream_loop cs n res) = Some Too_many_errors \<longleftrightarrow>
         (\<exists>pre fs rest. cs = pre @ fs @ rest \<and> Close_notify \<notin> set pre
            \<and> list_all failed_write fs
            \<and> ((pre = [] \<and> 5 < n + length fs) \<or> 5 < length fs))))
   \<and> stream_loop (Img img Write_ok # cs) n res
        = stream_loop cs 0 (write_part img Write_ok res)
   \<and> (stream_loop cs n res = (None, m, res') \<longrightarrow>
      m = (if list_all failed_write cs then n + length cs
           else length (takeWhile failed_write (rev cs))))"
proof (intro conjI impI)
  assume a: "meth r = ''GET'' \<and> list_all failed_write fs \<and> length fs = 6"
  define res1 where "res1 = stream_headers res"
  from a have
    "fst (handleMJPEG r (fs @ rest) res) = fst (stream_loop (fs @ rest) 0 res1)"
    using handleMJPEG_GET by (simp add: res1_def)
  moreover from a have "fst (stream_loop (fs @ rest) 0 res1) = Some Too_many_errors"
    by (intro stream_loop_killed) auto
  ultimately show "fst (handleMJPEG r (fs @ rest) res) = Some Too_many_errors"
    by simp
next
  assume a: "meth r = ''GET'' \<and> list_all failed_write fs \<and> length fs = 5"
  let ?cs = "fs @ [Img img Write_ok]"
  define res1 where "res1 = stream_headers res"
  from a have h:
    "fst (handleMJPEG r ?cs res) = fst (stream_loop ?cs 0 res1)"
    "fst (snd (handleMJPEG r ?cs res)) = fst (snd (stream_loop ?cs 0 res1))"
    using handleMJPEG_GET by (simp_all add: res1_def)
  from a obtain res2 where
    "stream_loop ?cs 0 res1 = stream_loop [Img img Write_ok] (0 + length fs) res2"
    using stream_loop_alive [of fs 0 "[Img img Write_ok]" res1] by auto
  then have "stream_loop ?cs 0 res1 = (None, 0, write_part img Write_ok res2)"
    by simp
  with h show "fst (handleMJPEG r ?cs res) = None"
    and "fst (snd (handleMJPEG r ?cs res)) = 0"
    by simp_all
next
  assume a: "list_all failed_write fs \<and> n \<le> 5"
  show "fst (stream_loop fs n res) = Some Too_many_errors \<longleftrightarrow> 5 < n + length fs"
  proof (cases "5 < n + length fs")
    case True
    with a stream_loop_killed [of fs n "[]" res] show ?thesis by simp
  next
    case False
    with a stream_loop_alive [of fs n "[]" res] show ?thesis by auto
  qed
next
  assume "stream_loop cs n res = (None, m, res')"
  then show "images_of (body res') = images_of (body res) @ successes cs"
    by (rule stream_loop_images)
next
  assume g: "meth r = ''GET''"
  have "fst (handleMJPEG r cs res) = fst (stream_loop cs 0 (stream_headers res))"
    using handleMJPEG_GET [OF g] by simp
  also have "\<dots> = Some Too_many_errors \<longleftrightarrow> too_many 0 cs"
    by (rule stream_loop_too_many) simp
  finally show "fst (handleMJPEG r cs res) = Some Too_many_errors \<longleftrightarrow>
      (\<exists>pre fs rest. cs = pre @ fs @ rest \<and> Close_notify \<notin> set pre
         \<and> list_all failed_write fs \<and> length fs = 6)"
    by (simp only: too_many_six)
next
  assume "n \<le> 5"
  then show "fst (stream_loop cs n res) = Some Too_many_errors \<longleftrightarrow>
      (\<exists>pre fs rest. cs = pre @ fs @ rest \<and> Close_notify \<notin> set pre
         \<and> list_all failed_write fs
         \<and> ((pre = [] \<and> 5 < n + length fs) \<or> 5 < length fs))"
    by (rule stream_loop_too_many [unfolded too_many_def])
next
  show "stream_loop (Img img Write_ok # cs) n res
      = stream_loop cs 0 (write_part img Write_ok res)"
    by simp
next
  assume "stream_loop cs n res = (None, m, res')"
  then show "m = (if list_all failed_write cs then n + length cs
      else length (takeWhile failed_write (rev cs)))"
    by (rule stream_loop_counter)
qed

theorem handleMJPEG_error_budget_witness:
  "fst (handleMJPEG \<lparr>meth = ''GET''\<rparr> (replicate 6 (Img (sample_jpeg 1) Write_failed))
          empty_response) = Some Too_many_errors
   \<and> fst (handleMJPEG \<lparr>meth = ''GET''\<rparr>
            (replicate 5 (Img (sample_jpeg 1) Write_failed) @ [Img (sample_jpeg 2) Write_ok])
            empty_response) = None
   \<and> fst (snd (handleMJPEG \<lparr>meth = ''GET''\<rparr>
            (replicate 5 (Img (sample_jpeg 1) Write_failed) @ [Img (sample_jpeg 2) Write_ok])
            empty_response)) = 0
   \<and> fst (stream_loop (replicate 5 (Img (sample_jpeg 1) CreatePart_failed)) 0 empty_response)
       \<noteq> Some Too_many_errors
   \<and> images_of (body (snd (snd (stream_loop
         [Img (sample_jpeg 1) Write_failed, Img (sample_jpeg 2) Write_ok] 0 empty_response))))
       = [sample_jpeg 2]
   \<and> fst (handleMJPEG \<lparr>meth = ''GET''\<rparr>
            (Img (sample_jpeg 2) Write_ok # replicate 6 (Img (sample_jpeg 1) Write_failed)
               @ [Close_notify])
            empty_response) = Some Too_many_errors
   \<and> fst (stream_loop
            (replicate 2 (Img (sample_jpeg 1) Write_failed) @ [Close_notify]) 4 empty_response)
       = Some Too_many_errors
   \<and> fst (stream_loop
            (replicate 3 (Img (sample_jpeg 1) Write_failed) @ [Img (sample_jpeg 2) Write_ok]
               @ replicate 3 (Img (sample_jpeg 1) Write_failed)) 0 empty_response) = None
   \<and> fst (snd (stream_loop
            (replicate 3 (Img (sample_jpeg 1) Write_failed) @ [Img (sample_jpeg 2) Write_ok]
               @ replicate 3 (Img (sample_jpeg 1) Write_failed)) 0 empty_response)) = 3"
proof -
  let ?r = "\<lparr>meth = ''GET''\<rparr>"
  let ?f = "Img (sample_jpeg 1) Write_failed"
  let ?s = "Img (sample_jpeg 2) Write_ok"
  let ?mixed = "replicate 3 ?f @ [?s] @ replicate 3 ?f"
  have six: "meth ?r = ''GET'' \<and> list_all failed_write (replicate 6 ?f)
      \<and> length (replicate 6 ?f) = 6"
    by (simp add: list_all_length)
  have five: "meth ?r = ''GET'' \<and> list_all failed_write (replicate 5 ?f)
      \<and> length (replicate 5 ?f) = 5"
    by (simp add: list_all_length)
  have c: "list_all failed_write (replicate 5 (Img (sample_jpeg 1) CreatePart_failed))
      \<and> (0::nat) \<le> 5"
    by (simp add: list_all_length)
  obtain m res' where run: "stream_loop [?f, ?s] 0 empty_response = (None, m, res')"
    by simp
  have later: "\<exists>pre fs rest. ?s # replicate 6 ?f @ [Close_notify] = pre @ fs @ rest
      \<and> Close_notify \<notin> set pre \<and> list_all failed_write fs \<and> length fs = 6"
    by (rule exI [of _ "[?s]"], rule exI [of _ "replicate 6 ?f"],
        rule exI [of _ "[Close_notify]"]) (simp add: list_all_length)
  have counted: "\<exists>pre fs rest. replicate 2 ?f @ [Close_notify] = pre @ fs @ rest
      \<and> Close_notify \<notin> set pre \<and> list_all failed_write fs
      \<and> ((pre = [] \<and> 5 < 4 + length fs) \<or> 5 < length fs)"
    by (rule exI [of _ "[]"], rule exI [of _ "replicate 2 ?f"],
        rule exI [of _ "[Close_notify]"]) (simp add: list_all_length)
  obtain k res'' where mixed: "stream_loop ?mixed 0 empty_response = (None, k, res'')"
    by (simp add: numeral_3_eq_3)
  have nf: "\<not> list_all failed_write ?mixed"
    by simp
  note t = handleMJPEG_error_budget
  from six t [where r = ?r and fs = "replicate 6 ?f" and rest = "[]" and res = empty_response,
      THEN conjunct1]
  have 1: "fst (handleMJPEG ?r (replicate 6 ?f) empty_response) = Some Too_many_errors"
    by simp
  from five t [where r = ?r and fs = "replicate 5 ?f" and res = empty_response
      and img = "sample_jpeg 2", THEN conjunct2, THEN conjunct1]
  have 2: "fst (handleMJPEG ?r (replicate 5 ?f @ [?s]) empty_response) = None"
    and 3: "fst (snd (handleMJPEG ?r (replicate 5 ?f @ [?s]) empty_response)) = 0"
    by simp_all
  from c t [where fs = "replicate 5 (Img (sample_jpeg 1) CreatePart_failed)"
      and res = empty_response and n = 0, THEN conjunct2, THEN conjunct2, THEN conjunct1]
  have 4: "fst (stream_loop (replicate 5 (Img (sample_jpeg 1) CreatePart_failed)) 0
        empty_response) \<noteq> Some Too_many_errors"
    by simp
  from run t [where res = empty_response and n = 0 and cs = "[?f, ?s]" and m = m
      and res' = res', THEN conjunct2, THEN conjunct2, THEN conjunct2, THEN conjunct1]
  have "images_of (body res') = [sample_jpeg 2]"
    by (simp add: empty_response_def)
  with run have 5: "images_of (body (snd (snd (stream_loop [?f, ?s] 0 empty_response))))
      = [sample_jpeg 2]"
    by simp
  from later t [where r = ?r and cs = "?s # replicate 6 ?f @ [Close_notify]"
      and res = empty_response, THEN conjunct2, THEN conjunct2, THEN conjunct2,
      THEN conjunct2, THEN conjunct1]
  have 6: "fst (handleMJPEG ?r (?s # replicate 6 ?f @ [Close_notify]) empty_response)
      = Some Too_many_errors"
    by simp
  from counted t [where n = 4 and cs = "replicate 2 ?f @ [Close_notify]"
      and res = empty_response, THEN conjunct2, THEN conjunct2, THEN conjunct2,
      THEN conjunct2, THEN conjunct2, THEN conjunct1]
  have 7: "fst (stream_loop (replicate 2 ?f @ [Close_notify]) 4 empty_response)
      = Some Too_many_errors"
    by simp
  from mixed have 8: "fst (stream_loop ?mixed 0 empty_response) = None"
    by simp
  from mixed nf t [where n = 0 and cs = ?mixed and res = empty_response and m = k
      and res' = res'', THEN conjunct2, THEN conjunct2, THEN conjunct2,
      THEN conjunct2, THEN conjunct2, THEN conjunct2, THEN conjunct2]
  have "k = length (takeWhile failed_write (rev ?mixed))"
    by simp
  then have "k = 3"
    by (simp add: numeral_3_eq_3)
  with mixed have 9: "fst (snd (stream_loop ?mixed 0 empty_response)) = 3"
    by simp
  from 1 2 3 4 5 6 7 8 9 show ?thesis by blast
qed

section \<open>Publishing a frame\<close>






section \<open>Sessions and the registry\<close>


text \<open>A channel after a frame was offered to it by \<^verbatim>\<open>sendImage\<close>.\<close>

definition queued :: "frame \<Rightarrow> chan \<Rightarrow> chan" where
  "queued jpg c = (if length (items c) < maxBacklog then c\<lparr>items := items c @ [jpg]\<rparr> else c)"

lemma chan_send_Inr:
  "chan_send c x = Inr c' \<Longrightarrow> c' = c\<lparr>items := items c @ [x]\<rparr>"
  by (auto simp: chan_send_def split: if_splits)

lemma send_each_Inr:
  "send_each jpg r = Inr r' \<Longrightarrow> r' = map (\<lambda>e. (fst e, queued jpg (snd e))) r"
proof (induction r arbitrary: r')
  case Nil
  then show ?case by simp
next
  case (Cons e r)
  obtain uid c where e: "e = (uid, c)" by (cases e)
  from Cons.prems e obtain t where t: "send_each jpg r = Inr t"
    by (auto split: if_splits sum.splits)
  with Cons.IH have t': "t = map (\<lambda>e. (fst e, queued jpg (snd e))) r" by simp
  show ?case
  proof (cases "length (items c) < maxBacklog")
    case True
    with Cons.prems e t obtain c' where "chan_send c jpg = Inr c'" "r' = (uid, c') # t"
      by (auto split: sum.splits)
    with True e t' show ?thesis by (auto simp: queued_def dest: chan_send_Inr)
  next
    case False
    with Cons.prems e t t' show ?thesis by (auto simp: queued_def)
  qed
qed








text \<open>The registry is in order at the start and stays so under every operation.\<close>

lemma hub_ok_init: "hub_ok hub_init"
  by (simp add: hub_ok_def hub_init_def)

lemma set_update_subset: "set (AList.update k v al) \<subseteq> insert (k, v) (set al)"
  by (induction al) auto

lemma hub_ok_register: "hub_ok h \<Longrightarrow> hub_ok (registerImgChan uid (make_chan 10) h)"
proof -
  assume ok: "hub_ok h"
  from ok set_update_subset [of uid "make_chan 10" "requester h"] show ?thesis
    by (auto simp: hub_ok_def registerImgChan_def distinct_update list_all_iff make_chan_def
        maxBacklog_def)
qed

lemma hub_ok_deregister: "hub_ok h \<Longrightarrow> hub_ok (deregisterImgChan uid h)"
proof -
  assume ok: "hub_ok h"
  have "set (AList.delete uid (requester h)) \<subseteq> set (requester h)"
    by (auto simp: AList.delete_eq)
  with ok show ?thesis
    by (auto simp: hub_ok_def deregisterImgChan_def distinct_delete list_all_iff)
qed

lemma hub_ok_sendImage: "hub_ok h \<Longrightarrow> sendImage jpg h = Inr h' \<Longrightarrow> hub_ok h'"
proof -
  assume ok: "hub_ok h" and s: "sendImage jpg h = Inr h'"
  show ?thesis
  proof (cases "requester h = []")
    case True
    with ok s show ?thesis by (simp add: sendImage_def)
  next
    case False
    with s obtain r where r: "send_each jpg (requester h) = Inr r" "requester h' = r"
      by (auto simp: sendImage_def split: sum.splits)
    from send_each_Inr [OF r(1)] r(2) ok show ?thesis
      by (auto simp: hub_ok_def list_all_iff comp_def queued_def)
  qed
qed










section \<open>The frames the reader publishes\<close>

text \<open>
  A frame is framed when it starts with the begin marker and ends with the end marker.
  The published slices of a state are in order when each points into an array of its
  own, made before the next free address, and shows framed bytes. One state keeps
  another when every array but \<^verbatim>\<open>buf\<close> that existed is unchanged, the published slices
  are still published in the same order, and the order of the state is preserved.
\<close>

lemma bytes_Index_occurs:
  "bytes_Index xs sep = Some i \<Longrightarrow> prefix sep (drop i xs)"
proof (induction xs arbitrary: i)
  case Nil
  then show ?case by (simp split: if_splits)
next
  case (Cons x xs)
  show ?case
  proof (cases "prefix sep (x # xs)")
    case True
    with Cons.prems show ?thesis by simp
  next
    case False
    with Cons.prems obtain j where "bytes_Index xs sep = Some j" "i = Suc j" by auto
    with Cons.IH show ?thesis by simp
  qed
qed

lemma bytes_Index_first:
  "bytes_Index xs sep = Some i \<Longrightarrow> prefix sep (drop j xs) \<Longrightarrow> i \<le> j"
proof (induction xs arbitrary: i j)
  case Nil
  then show ?case by (simp split: if_splits)
next
  case (Cons x xs)
  show ?case
  proof (cases "prefix sep (x # xs)")
    case True
    with Cons.prems show ?thesis by simp
  next
    case False
    with Cons.prems(1) obtain i' where i': "bytes_Index xs sep = Some i'" "i = Suc i'" by auto
    from False Cons.prems(2) obtain j' where j': "j = Suc j'" by (cases j) auto
    with Cons.prems(2) have "prefix sep (drop j' xs)" by simp
    from Cons.IH [OF i'(1) this] i'(2) j' show ?thesis by simp
  qed
qed

lemma bytes_Index_None:
  "bytes_Index xs sep = None \<Longrightarrow> \<not> prefix sep (drop j xs)"
proof (induction xs arbitrary: j)
  case Nil
  then show ?case by (simp split: if_splits)
next
  case (Cons x xs)
  from Cons.prems have np: "\<not> prefix sep (x # xs)" and n: "bytes_Index xs sep = None"
    by (auto split: if_splits)
  show ?case
  proof (cases j)
    case 0
    with np show ?thesis by simp
  next
    case (Suc j')
    with Cons.IH [OF n, of j'] show ?thesis by simp
  qed
qed

lemma bytes_Index_SomeI:
  "prefix sep (drop i xs) \<Longrightarrow> i \<le> length xs \<Longrightarrow> (\<And>j. j < i \<Longrightarrow> \<not> prefix sep (drop j xs)) \<Longrightarrow>
     bytes_Index xs sep = Some i"
proof -
  assume p: "prefix sep (drop i xs)" and le: "i \<le> length xs"
    and first: "\<And>j. j < i \<Longrightarrow> \<not> prefix sep (drop j xs)"
  show ?thesis
  proof (cases "bytes_Index xs sep")
    case None
    with p show ?thesis by (auto dest: bytes_Index_None)
  next
    case (Some k)
    from bytes_Index_first [OF Some p] have "k \<le> i" .
    moreover from bytes_Index_occurs [OF Some] first [of k] have "\<not> k < i" by blast
    ultimately show ?thesis using Some by simp
  qed
qed

lemma bytes_Index_take:
  assumes "bytes_Index xs sep = Some i"
  shows "bytes_Index (take (i + length sep) xs) sep = Some i"
proof (rule bytes_Index_SomeI)
  from bytes_Index_bound [OF assms] show "i \<le> length (take (i + length sep) xs)" by simp
  from bytes_Index_occurs [OF assms] have "take (length sep) (drop i xs) = sep"
    by (auto simp: prefix_def)
  then show "prefix sep (drop i (take (i + length sep) xs))"
    by (simp add: drop_take)
next
  fix j
  assume "j < i"
  with bytes_Index_first [OF assms, of j] have "\<not> prefix sep (drop j xs)" by auto
  moreover have "prefix (drop j (take (i + length sep) xs)) (drop j xs)"
    by (simp add: drop_take take_is_prefix)
  ultimately show "\<not> prefix sep (drop j (take (i + length sep) xs))"
    by (auto dest: prefix_order.trans)
qed

lemma bytes_Index_strict_prefix:
  assumes "bytes_Index ys sep = Some (length ys - length sep)" and "sep \<noteq> []"
    and "strict_prefix xs ys"
  shows "bytes_Index xs sep = None"
proof (cases "bytes_Index xs sep")
  case None
  then show ?thesis .
next
  case (Some i)
  from bytes_Index_bound [OF Some] have b: "i + length sep \<le> length xs" .
  from assms(3) obtain zs where ys: "ys = xs @ zs" "zs \<noteq> []"
    by (auto simp: strict_prefix_def prefix_def)
  from bytes_Index_occurs [OF Some] b ys have "prefix sep (drop i ys)"
    by (auto simp: prefix_def)
  from bytes_Index_first [OF assms(1) this] have "length ys - length sep \<le> i" .
  moreover from ys have "length ys = length xs + length zs" "0 < length zs" by simp_all
  ultimately have False using b by arith
  then show ?thesis ..
qed

definition jpeg_framed :: "frame \<Rightarrow> bool" where
  "jpeg_framed b = (bytes_HasPrefix b beginOfJPEG \<and> bytes_HasSuffix b endOfJPEG)"

definition published_ok :: "reader \<Rightarrow> bool" where
  "published_ok s =
     (0 < nexta s
      \<and> list_all (\<lambda>sl. 0 < base sl \<and> base sl < nexta s
                      \<and> jpeg_framed (bytes_of (heap s) sl)
                      \<and> bytes_Index (bytes_of (heap s) sl) endOfJPEG = Some (len sl - 2))
           (sent s))"

definition keeps :: "reader \<Rightarrow> reader \<Rightarrow> bool" where
  "keeps s s' =
     (nexta s \<le> nexta s'
      \<and> (\<forall>a. 0 < a \<longrightarrow> a < nexta s \<longrightarrow> heap s' a = heap s a)
      \<and> prefix (sent s) (sent s')
      \<and> (published_ok s \<longrightarrow> published_ok s'))"

lemma keeps_refl: "keeps s s"
  by (simp add: keeps_def)

lemma keeps_trans: "keeps s t \<Longrightarrow> keeps t u \<Longrightarrow> keeps s u"
  unfolding keeps_def by (auto intro: prefix_order.trans)

lemma bytes_of_same_array:
  "h' (base sl) = h (base sl) \<Longrightarrow> bytes_of h' sl = bytes_of h sl"
  by (simp add: bytes_of_def)

lemma go_copy_other: "a \<noteq> base dst \<Longrightarrow> go_copy dst src h a = h a"
  by (simp add: go_copy_def)

lemma buffer_write_keeps:
  assumes "base dst = 0" and "heap s' = go_copy dst c (heap s)"
    and "nexta s' = nexta s" and "sent s' = sent s"
  shows "keeps s s'"
proof -
  have h: "heap s' a = heap s a" if "0 < a" for a
    using that assms by (simp add: go_copy_other)
  have "published_ok s'" if ok: "published_ok s"
  proof -
    have "bytes_of (heap s') sl = bytes_of (heap s) sl" if "0 < base sl" for sl
      using that h by (intro bytes_of_same_array) simp
    with ok assms show ?thesis
      by (auto simp: published_ok_def list_all_iff)
  qed
  with h assms show ?thesis by (simp add: keeps_def)
qed

lemma slide_keeps: "slide s = Inr s' \<Longrightarrow> keeps s s'"
proof -
  assume a: "slide s = Inr s'"
  show ?thesis
  proof (cases "br s > 0")
    case True
    with a obtain src where "s' = s\<lparr>heap := go_copy buf (bytes_of (heap s) src) (heap s),
        bw := bw s - br s, br := 0\<rparr>"
      by (auto simp: slide_def split: option.splits)
    then show ?thesis
      by (intro buffer_write_keeps [of buf _ "bytes_of (heap s) src"]) (simp_all add: buf_def)
  next
    case False
    with a show ?thesis by (simp add: slide_def keeps_refl)
  qed
qed

lemma fill_keeps:
  "reslice buf lo hi = Some dst \<Longrightarrow> keeps s (s\<lparr>heap := go_copy dst c (heap s), bw := b\<rparr>)"
  by (intro buffer_write_keeps [of dst _ c]) (auto simp: buf_def dest: reslice_Some)

lemma bytes_of_go_copy:
  "len dst \<le> length src \<Longrightarrow> bytes_of (go_copy dst src h) dst = take (len dst) src"
  by (auto simp: bytes_of_def go_copy_def intro!: nth_equalityI)

lemma extract_body_Inr:
  assumes "extract_body idx s = Inr s'"
  shows "\<exists>img src. img = \<lparr>base = nexta s, off = 0, len = idx + 2 - br s\<rparr>
      \<and> reslice buf (br s) (br s + (idx + 2)) = Some src
      \<and> br s \<le> idx + 2
      \<and> heap s' = go_copy img (bytes_of ((heap s)(nexta s := (\<lambda>i. 0))) src)
                     ((heap s)(nexta s := (\<lambda>i. 0)))
      \<and> nexta s' = Suc (nexta s) \<and> br s' = br s + (idx + 2) \<and> bw s' = bw s
      \<and> imgs s' = imgs s @ [img]
      \<and> sent s' = (if jpeg_framed (bytes_of (heap s') img) then sent s @ [img] else sent s)"
  using assms
  by (auto simp: extract_body_def Let_def jpeg_framed_def endOfJPEG_def
      split: if_splits option.splits)

lemma extract_body_copy:
  assumes "0 < nexta s0" and "extract_body idx s0 = Inr s"
  shows "\<exists>img src. imgs s = imgs s0 @ [img] \<and> base img \<noteq> base buf
      \<and> reslice buf (br s0) (br s0 + (idx + 2)) = Some src
      \<and> bytes_of (heap s) img = take (len img) (bytes_of (heap s0) src)
      \<and> heap s (base buf) = heap s0 (base buf)"
proof -
  let ?h1 = "(heap s0)(nexta s0 := (\<lambda>i. 0))"
  from extract_body_Inr [OF assms(2)] obtain img src where
    img: "img = \<lparr>base = nexta s0, off = 0, len = idx + 2 - br s0\<rparr>"
    and src: "reslice buf (br s0) (br s0 + (idx + 2)) = Some src"
    and hp: "heap s = go_copy img (bytes_of ?h1 src) ?h1"
    and im: "imgs s = imgs s0 @ [img]"
    by blast
  from src have b: "base src = 0" "len src = idx + 2"
    by (auto simp: buf_def dest: reslice_Some)
  with assms(1) have same: "bytes_of ?h1 src = bytes_of (heap s0) src"
    by (intro bytes_of_same_array) simp
  from img b have "len img \<le> length (bytes_of ?h1 src)" by simp
  from bytes_of_go_copy [OF this, of ?h1] hp same
  have "bytes_of (heap s) img = take (len img) (bytes_of (heap s0) src)" by simp
  moreover from assms(1) img have "base img \<noteq> base buf" by (simp add: buf_def)
  moreover from assms(1) img hp have "heap s (base buf) = heap s0 (base buf)"
    by (simp add: go_copy_other buf_def)
  ultimately show ?thesis using im src by blast
qed

lemma bytes_of_prefix_slice:
  "base a = base b \<Longrightarrow> off a = off b \<Longrightarrow> len a \<le> len b \<Longrightarrow>
     bytes_of h a = take (len a) (bytes_of h b)"
  by (simp add: bytes_of_def take_map min_def)

text \<open>
  A candidate that ends with the end marker was made with \<^verbatim>\<open>br\<close> at 0, and is the whole
  span up to the first end marker of the unread bytes.
\<close>

lemma extract_body_whole:
  assumes n: "0 < nexta s"
    and w: "reslice buf (br s) (bw s) = Some w"
    and i: "bytes_Index (bytes_of (heap s) w) endOfJPEG = Some idx"
    and b: "extract_body idx s = Inr s'"
    and im: "imgs s' = imgs s @ [img]"
    and sf: "bytes_HasSuffix (bytes_of (heap s') img) endOfJPEG"
  shows "br s = 0 \<and> len img = idx + 2
    \<and> bytes_of (heap s') img = take (idx + 2) (bytes_of (heap s) w)"
proof -
  let ?W = "bytes_of (heap s) w"
  let ?L = "idx + 2 - br s"
  have e: "length endOfJPEG = 2" by (simp add: endOfJPEG_def)
  from extract_body_Inr [OF b] im have li: "len img = ?L" by auto
  from extract_body_copy [OF n b] im obtain src where
    src: "reslice buf (br s) (br s + (idx + 2)) = Some src"
    and c: "bytes_of (heap s') img = take (len img) (bytes_of (heap s) src)"
    by auto
  from bytes_Index_bound [OF i] e have bound: "idx + 2 \<le> length ?W" by simp
  from w src bound have "bytes_of (heap s) src = take (len src) ?W" "len src = idx + 2"
    by (auto dest!: reslice_Some intro!: bytes_of_prefix_slice)
  with c li have B: "bytes_of (heap s') img = take ?L ?W"
    by (simp add: min_def)
  from sf obtain zs where zs: "take ?L ?W = zs @ endOfJPEG"
    by (auto simp: bytes_HasSuffix_def suffix_def B)
  from bound have lt: "length (take ?L ?W) = ?L" by simp
  with zs e have L2: "2 \<le> ?L" "length zs = ?L - 2"
    by (metis length_append le_add2, metis length_append add_diff_cancel_right')
  have "drop (?L - 2) (take ?L ?W) = endOfJPEG"
    using zs L2 by simp
  moreover have "prefix (drop (?L - 2) (take ?L ?W)) (drop (?L - 2) ?W)"
    by (simp add: drop_take take_is_prefix)
  ultimately have "prefix endOfJPEG (drop (?L - 2) ?W)" by simp
  from bytes_Index_first [OF i this] L2 have z: "br s = 0" by arith
  with B li show ?thesis by simp
qed

lemma extract_body_keeps:
  assumes w: "reslice buf (br s) (bw s) = Some w"
    and i: "bytes_Index (bytes_of (heap s) w) endOfJPEG = Some idx"
    and b: "extract_body idx s = Inr s'"
  shows "keeps s s'"
proof -
  from extract_body_Inr [OF b] obtain img src where
    img: "img = \<lparr>base = nexta s, off = 0, len = idx + 2 - br s\<rparr>"
    and hp: "heap s' = go_copy img (bytes_of ((heap s)(nexta s := (\<lambda>i. 0))) src)
                     ((heap s)(nexta s := (\<lambda>i. 0)))"
    and nx: "nexta s' = Suc (nexta s)"
    and im: "imgs s' = imgs s @ [img]"
    and st: "sent s' = (if jpeg_framed (bytes_of (heap s') img) then sent s @ [img] else sent s)"
    by blast
  have h: "heap s' a = heap s a" if "a \<noteq> nexta s" for a
    using that hp img by (simp add: go_copy_other)
  have old: "bytes_of (heap s') sl = bytes_of (heap s) sl" if "base sl < nexta s" for sl
    using that h by (intro bytes_of_same_array) simp
  have "published_ok s'" if ok: "published_ok s"
  proof -
    from ok have n: "0 < nexta s" by (simp add: published_ok_def)
    have new: "bytes_Index (bytes_of (heap s') img) endOfJPEG = Some (len img - 2)"
      if "jpeg_framed (bytes_of (heap s') img)"
    proof -
      from that have "bytes_HasSuffix (bytes_of (heap s') img) endOfJPEG"
        by (simp add: jpeg_framed_def)
      from extract_body_whole [OF n w i b im this]
      have "len img = idx + 2"
        and "bytes_of (heap s') img = take (idx + length endOfJPEG) (bytes_of (heap s) w)"
        by (simp_all add: endOfJPEG_def)
      with bytes_Index_take [OF i] show ?thesis by simp
    qed
    from ok old st nx img n new show ?thesis
      by (auto simp: published_ok_def list_all_iff)
  qed
  with h nx st show ?thesis by (auto simp: keeps_def)
qed

lemma extract_images_keeps: "extract_images s = (r, s') \<Longrightarrow> keeps s s'"
proof (induction s arbitrary: r s' rule: extract_images.induct)
  case (1 s)
  show ?case
  proof (cases "reslice buf (br s) (bw s)")
    case None
    with "1.prems" show ?thesis by (simp add: extract_images.simps [of s] keeps_refl)
  next
    case (Some w)
    show ?thesis
    proof (cases "bytes_Index (bytes_of (heap s) w) endOfJPEG")
      case None
      with Some "1.prems" show ?thesis by (simp add: extract_images.simps [of s] keeps_refl)
    next
      case (Some idx)
      note idx = this
      show ?thesis
      proof (cases "extract_body idx s")
        case (Inl e)
        with \<open>reslice buf (br s) (bw s) = Some w\<close> idx "1.prems" show ?thesis
          by (simp add: extract_images.simps [of s] keeps_refl)
      next
        case (Inr t)
        with \<open>reslice buf (br s) (bw s) = Some w\<close> idx "1.prems"
        have "extract_images t = (r, s')"
          by (simp add: extract_images.simps [of s])
        from "1.IH" [OF \<open>reslice buf (br s) (bw s) = Some w\<close> idx Inr this]
        have "keeps t s'" .
        with extract_body_keeps [OF \<open>reslice buf (br s) (bw s) = Some w\<close> idx Inr]
        show ?thesis by (rule keeps_trans)
      qed
    qed
  qed
qed



lemma main_loop_Data_step:
  assumes "slide s = Inr s1" and "reslice buf (bw s1) (len buf) = Some dst"
  shows "min (len dst) (length c) = 0 \<Longrightarrow> c = [] \<Longrightarrow>
      main_loop (Data c # rs) s =
        main_loop rs (s1\<lparr>heap := go_copy dst c (heap s1),
                         bw := bw s1 + min (len dst) (length c)\<rparr>)"
    and "min (len dst) (length c) = 0 \<Longrightarrow> c \<noteq> [] \<Longrightarrow>
      main_loop (Data c # rs) s =
        (Some Spin_buffer_full, s1\<lparr>heap := go_copy dst c (heap s1),
                                    bw := bw s1 + min (len dst) (length c)\<rparr>)"
    and "min (len dst) (length c) \<noteq> 0 \<Longrightarrow>
      extract_images (s1\<lparr>heap := go_copy dst c (heap s1),
                           bw := bw s1 + min (len dst) (length c)\<rparr>) = (Some e, s3) \<Longrightarrow>
      main_loop (Data c # rs) s = (Some e, s3)"
    and "min (len dst) (length c) \<noteq> 0 \<Longrightarrow>
      extract_images (s1\<lparr>heap := go_copy dst c (heap s1),
                           bw := bw s1 + min (len dst) (length c)\<rparr>) = (None, s3) \<Longrightarrow>
      main_loop (Data c # rs) s =
        main_loop (if min (len dst) (length c) < length c
                   then Data (drop (min (len dst) (length c)) c) # rs else rs) s3"
  using assms
  by (simp_all only: main_loop.simps Let_def sum.case option.case prod.case if_True if_False
      simp_thms)

lemma main_loop_keeps: "main_loop rs s = (r, s') \<Longrightarrow> keeps s s'"
proof (induction rs s arbitrary: r s' rule: main_loop.induct)
  case (1 s)
  then show ?case
    by (auto simp: main_loop.simps keeps_refl split: sum.splits dest: slide_keeps)
next
  case (2 rs s)
  then show ?case
    by (auto simp: main_loop.simps keeps_refl split: sum.splits dest: slide_keeps)
next
  case (3 c rs s)
  note run = "3.prems"
  show ?case
  proof (cases "slide s")
    case (Inl e)
    with run show ?thesis by (simp add: main_loop.simps keeps_refl)
  next
    case (Inr s1)
    note sl = this
    then have k1: "keeps s s1" by (rule slide_keeps)
    show ?thesis
    proof (cases "reslice buf (bw s1) (len buf)")
      case None
      with sl run k1 show ?thesis by (simp add: main_loop.simps)
    next
      case (Some dst)
      note step = main_loop_Data_step [OF sl Some, of c]
      let ?n = "min (len dst) (length c)"
      let ?s2 = "s1\<lparr>heap := go_copy dst c (heap s1), bw := bw s1 + ?n\<rparr>"
      from Some have "keeps s1 ?s2" by (rule fill_keeps)
      with k1 have k2: "keeps s ?s2" by (rule keeps_trans)
      show ?thesis
      proof (cases "?n = 0")
        case True
        note n0 = this
        show ?thesis
        proof (cases "c = []")
          case True
          from run step(1) [OF n0 True] have "main_loop rs ?s2 = (r, s')" by simp
          from "3.IH"(1) [OF sl Some refl refl n0 True this] have "keeps ?s2 s'" .
          with k2 show ?thesis by (rule keeps_trans)
        next
          case False
          from run step(2) [OF n0 False] have "s' = ?s2" by simp
          with k2 show ?thesis by simp
        qed
      next
        case False
        note n1 = this
        obtain xb y where ex: "extract_images ?s2 = (xb, y)" by (cases "extract_images ?s2")
        then have "keeps ?s2 y" by (rule extract_images_keeps)
        with k2 have k3: "keeps s y" by (rule keeps_trans)
        show ?thesis
        proof (cases xb)
          case None
          from run step(4) [OF n1 ex [unfolded None]]
          have "main_loop (if ?n < length c then Data (drop ?n c) # rs else rs) y = (r, s')"
            by simp
          from "3.IH"(2) [OF sl Some refl refl n1 ex [symmetric] None this] have "keeps y s'" .
          with k3 show ?thesis by (rule keeps_trans)
        next
          case (Some e)
          from run step(3) [OF n1 ex [unfolded Some]] have "s' = y" by simp
          with k3 show ?thesis by simp
        qed
      qed
    qed
  qed
qed

lemma published_ok_init: "published_ok reader_init"
  by (simp add: published_ok_def reader_init_def)

lemma slide_idem: "slide s = Inr s1 \<Longrightarrow> slide s1 = Inr s1"
  by (auto simp: slide_def split: if_splits option.splits)

lemma main_loop_after_slide: "slide s = Inr s1 \<Longrightarrow> main_loop rs s1 = main_loop rs s"
proof -
  assume a: "slide s = Inr s1"
  then have b: "slide s1 = Inr s1" by (rule slide_idem)
  show ?thesis
  proof (cases rs)
    case Nil
    with a b show ?thesis by (simp add: main_loop.simps)
  next
    case (Cons x xs)
    with a b show ?thesis by (cases x) (simp_all add: main_loop.simps)
  qed
qed

lemma main_loop_slide_fails: "slide s = Inl e \<Longrightarrow> main_loop rs s = (Some e, s)"
proof -
  assume a: "slide s = Inl e"
  show ?thesis
  proof (cases rs)
    case Nil
    with a show ?thesis by (simp add: main_loop.simps)
  next
    case (Cons x xs)
    with a show ?thesis by (cases x) (simp_all add: main_loop.simps)
  qed
qed

lemma main_loop_append:
  "main_loop (rs1 @ rs2) s =
     (case main_loop rs1 s of (None, s1) \<Rightarrow> main_loop rs2 s1 | (Some e, s1) \<Rightarrow> (Some e, s1))"
proof (induction rs1 s rule: main_loop.induct)
  case (1 s)
  show ?case
  proof (cases "slide s")
    case (Inl e)
    then show ?thesis by (simp add: main_loop.simps main_loop_slide_fails)
  next
    case (Inr s1)
    then show ?thesis by (simp add: main_loop.simps main_loop_after_slide)
  qed
next
  case (2 rs s)
  then show ?case by (simp add: main_loop.simps split: sum.splits)
next
  case (3 c rs s)
  show ?case
  proof (cases "slide s")
    case (Inl e)
    then show ?thesis by (simp add: main_loop.simps)
  next
    case (Inr s1)
    note sl = this
    show ?thesis
    proof (cases "reslice buf (bw s1) (len buf)")
      case None
      with sl show ?thesis by (simp add: main_loop.simps)
    next
      case (Some dst)
      note step = main_loop_Data_step [OF sl Some, of c]
      let ?n = "min (len dst) (length c)"
      let ?s2 = "s1\<lparr>heap := go_copy dst c (heap s1), bw := bw s1 + ?n\<rparr>"
      show ?thesis
      proof (cases "?n = 0")
        case True
        note n0 = this
        show ?thesis
        proof (cases "c = []")
          case True
          from "3.IH"(1) [OF sl Some refl refl n0 True] step(1) [OF n0 True]
          show ?thesis by simp
        next
          case False
          from step(2) [OF n0 False] show ?thesis by simp
        qed
      next
        case False
        note n1 = this
        obtain xb y where ex: "extract_images ?s2 = (xb, y)" by (cases "extract_images ?s2")
        show ?thesis
        proof (cases xb)
          case None
          have "(if ?n < length c then Data (drop ?n c) # (rs @ rs2) else rs @ rs2)
              = (if ?n < length c then Data (drop ?n c) # rs else rs) @ rs2"
            by simp
          with "3.IH"(2) [OF sl Some refl refl n1 ex [symmetric] None]
            step(4) [OF n1 ex [unfolded None], of rs]
            step(4) [OF n1 ex [unfolded None], of "rs @ rs2"]
          show ?thesis by simp
        next
          case (Some e)
          from step(3) [OF n1 ex [unfolded Some]] show ?thesis by simp
        qed
      qed
    qed
  qed
qed

lemmas reader_eval = main_loop.simps extract_images.simps slide_def reslice_def buf_def
  bufSize_def extract_body_def go_copy_def bytes_of_def bytes_HasPrefix_def
  bytes_HasSuffix_def beginOfJPEG_def endOfJPEG_def reader_init_def frames_sent_def
  candidates_def Let_def suffix_def upt_conv_Cons sample_jpeg_def

lemma main_loop_published_ok: "main_loop rs reader_init = (r, s) \<Longrightarrow> published_ok s"
  using main_loop_keeps [of rs reader_init r s] published_ok_init by (simp add: keeps_def)

text \<open>
  Claim C5. Every frame the reader has handed to \<^verbatim>\<open>sendImage\<close>, after any sequence of
  reads from the start of the program, starts with FF D8 and ends with FF D9. One pass
  of the extraction body always moves the cursor \<^verbatim>\<open>br\<close> past the end marker it found,
  and it hands the candidate \<^verbatim>\<open>img\<close> on if and only if the candidate starts with FF D8
  and ends with FF D9: a candidate that does not is dropped and is never published.
\<close>

theorem published_frames_framed:
  "(main_loop rs reader_init = (r, s) \<longrightarrow>
      list_all (\<lambda>b. bytes_HasPrefix b beginOfJPEG \<and> bytes_HasSuffix b endOfJPEG)
        (frames_sent s))
   \<and> (extract_body idx s0 = Inr s1 \<longrightarrow>
        br s1 = br s0 + (idx + 2)
        \<and> (\<exists>img. imgs s1 = imgs s0 @ [img]
              \<and> sent s1 =
                  (if bytes_HasPrefix (bytes_of (heap s1) img) beginOfJPEG
                      \<and> bytes_HasSuffix (bytes_of (heap s1) img) endOfJPEG
                   then sent s0 @ [img] else sent s0)))"
proof (intro conjI impI)
  assume "main_loop rs reader_init = (r, s)"
  then have "published_ok s" by (rule main_loop_published_ok)
  then show "list_all (\<lambda>b. bytes_HasPrefix b beginOfJPEG \<and> bytes_HasSuffix b endOfJPEG)
      (frames_sent s)"
    by (auto simp: published_ok_def frames_sent_def list_all_iff jpeg_framed_def)
next
  assume a: "extract_body idx s0 = Inr s1"
  from extract_body_Inr [OF a] show "br s1 = br s0 + (idx + 2)" by blast
  from extract_body_Inr [OF a] show "\<exists>img. imgs s1 = imgs s0 @ [img]
      \<and> sent s1 =
          (if bytes_HasPrefix (bytes_of (heap s1) img) beginOfJPEG
              \<and> bytes_HasSuffix (bytes_of (heap s1) img) endOfJPEG
           then sent s0 @ [img] else sent s0)"
    unfolding jpeg_framed_def by blast
qed

theorem published_frames_framed_witness:
  "frames_sent (snd (main_loop [Data [1, 0xff, 0xd9], Data (sample_jpeg 1)] reader_init))
     = [sample_jpeg 1]
   \<and> candidates (snd (main_loop [Data [1, 0xff, 0xd9], Data (sample_jpeg 1)] reader_init))
     = [[1, 0xff, 0xd9], sample_jpeg 1]
   \<and> list_all (\<lambda>b. bytes_HasPrefix b beginOfJPEG \<and> bytes_HasSuffix b endOfJPEG)
       (frames_sent (snd (main_loop [Data [1, 0xff, 0xd9], Data (sample_jpeg 1)] reader_init)))
   \<and> (\<exists>s1. extract_body 1
          (reader_init\<lparr>heap := go_copy buf [1, 0xff, 0xd9] (heap reader_init), bw := 3\<rparr>)
          = Inr s1
        \<and> br s1 = 3 \<and> sent s1 = [])"
proof -
  let ?rs = "[Data [1, 0xff, 0xd9], Data (sample_jpeg 1)]"
  let ?s0 = "reader_init\<lparr>heap := go_copy buf [1, 0xff, 0xd9] (heap reader_init), bw := 3\<rparr>"
  note t = published_frames_framed
  obtain r s where run: "main_loop ?rs reader_init = (r, s)"
    by (cases "main_loop ?rs reader_init")
  have 1: "frames_sent (snd (main_loop ?rs reader_init)) = [sample_jpeg 1]"
    by (simp add: reader_eval)
  have 2: "candidates (snd (main_loop ?rs reader_init)) = [[1, 0xff, 0xd9], sample_jpeg 1]"
    by (simp add: reader_eval)
  from run t [of ?rs r s]
  have 3: "list_all (\<lambda>b. bytes_HasPrefix b beginOfJPEG \<and> bytes_HasSuffix b endOfJPEG)
      (frames_sent (snd (main_loop ?rs reader_init)))"
    by simp
  obtain s1 where b: "extract_body 1 ?s0 = Inr s1"
    by (simp add: reader_eval)
  have e: "sent ?s0 = []" "br ?s0 = 0" "imgs ?s0 = []"
    by (simp_all add: reader_init_def)
  from b t [of _ _ _ 1 ?s0 s1] obtain img where "br s1 = br ?s0 + (1 + 2)"
    and i: "imgs s1 = imgs ?s0 @ [img]"
    and st: "sent s1 =
        (if bytes_HasPrefix (bytes_of (heap s1) img) beginOfJPEG
            \<and> bytes_HasSuffix (bytes_of (heap s1) img) endOfJPEG
         then sent ?s0 @ [img] else sent ?s0)"
    by blast
  with e have br: "br s1 = 3" by simp
  from b have "bytes_of (heap s1) (last (imgs s1)) = [1, 0xff, 0xd9]"
    by (auto simp: reader_eval)
  with i have "\<not> bytes_HasPrefix (bytes_of (heap s1) img) beginOfJPEG"
    by (simp add: bytes_HasPrefix_def beginOfJPEG_def)
  with st e have "sent s1 = []" by simp
  with b br have 4: "\<exists>s1. extract_body 1 ?s0 = Inr s1 \<and> br s1 = 3 \<and> sent s1 = []"
    by blast
  from 1 2 3 4 show ?thesis by blast
qed

text \<open>
  Claim C8. A frame handed to \<^verbatim>\<open>sendImage\<close> is a copy in an array of its own. The
  extraction body copies the bytes of \<^verbatim>\<open>buf[br:br+eoj]\<close> into a new array, other than
  the array of \<^verbatim>\<open>buf\<close>, and leaves \<^verbatim>\<open>buf\<close> as it was. Whatever the reader reads after
  it has published frames (more reads, slides of the buffer, more extractions), the
  frames published before stay published in the same order, none of them points into
  \<^verbatim>\<open>buf\<close>, and each shows the same bytes as before.
\<close>

theorem published_frames_stable:
  "(main_loop rs1 reader_init = (None, s1) \<and> main_loop (rs1 @ rs2) reader_init = (r2, s2) \<longrightarrow>
      prefix (sent s1) (sent s2)
      \<and> (\<forall>sl \<in> set (sent s1).
            base sl \<noteq> base buf \<and> bytes_of (heap s2) sl = bytes_of (heap s1) sl))
   \<and> (0 < nexta s0 \<and> extract_body idx s0 = Inr s \<longrightarrow>
        (\<exists>img src. imgs s = imgs s0 @ [img] \<and> base img \<noteq> base buf
           \<and> reslice buf (br s0) (br s0 + (idx + 2)) = Some src
           \<and> bytes_of (heap s) img = take (len img) (bytes_of (heap s0) src)
           \<and> heap s (base buf) = heap s0 (base buf)))"
proof (intro conjI impI)
  assume a: "main_loop rs1 reader_init = (None, s1)
      \<and> main_loop (rs1 @ rs2) reader_init = (r2, s2)"
  then have ok: "published_ok s1" by (auto dest: main_loop_published_ok)
  from a have "main_loop rs2 s1 = (r2, s2)" by (auto simp: main_loop_append)
  then have k: "keeps s1 s2" by (rule main_loop_keeps)
  then show "prefix (sent s1) (sent s2)" by (simp add: keeps_def)
  show "\<forall>sl \<in> set (sent s1).
      base sl \<noteq> base buf \<and> bytes_of (heap s2) sl = bytes_of (heap s1) sl"
  proof
    fix sl
    assume "sl \<in> set (sent s1)"
    with ok have b: "0 < base sl" "base sl < nexta s1"
      by (auto simp: published_ok_def list_all_iff)
    with k have "heap s2 (base sl) = heap s1 (base sl)" by (simp add: keeps_def)
    then have "bytes_of (heap s2) sl = bytes_of (heap s1) sl" by (rule bytes_of_same_array)
    with b show "base sl \<noteq> base buf \<and> bytes_of (heap s2) sl = bytes_of (heap s1) sl"
      by (simp add: buf_def)
  qed
next
  assume "0 < nexta s0 \<and> extract_body idx s0 = Inr s"
  then show "\<exists>img src. imgs s = imgs s0 @ [img] \<and> base img \<noteq> base buf
      \<and> reslice buf (br s0) (br s0 + (idx + 2)) = Some src
      \<and> bytes_of (heap s) img = take (len img) (bytes_of (heap s0) src)
      \<and> heap s (base buf) = heap s0 (base buf)"
    using extract_body_copy by blast
qed

theorem published_frames_stable_witness:
  "fst (main_loop [Data (sample_jpeg 1)] reader_init) = None
   \<and> sent (snd (main_loop [Data (sample_jpeg 1)] reader_init))
       = [\<lparr>base = 1, off = 0, len = 5\<rparr>]
   \<and> bytes_of (heap (snd (main_loop [Data (sample_jpeg 1)] reader_init)))
        \<lparr>base = 0, off = 0, len = 5\<rparr> = sample_jpeg 1
   \<and> bytes_of (heap (snd (main_loop ([Data (sample_jpeg 1)] @ [Data (sample_jpeg 2)])
        reader_init))) \<lparr>base = 0, off = 0, len = 5\<rparr> = sample_jpeg 2
   \<and> bytes_of (heap (snd (main_loop ([Data (sample_jpeg 1)] @ [Data (sample_jpeg 2)])
        reader_init))) \<lparr>base = 1, off = 0, len = 5\<rparr> = sample_jpeg 1
   \<and> (\<exists>s. extract_body 3
          (reader_init\<lparr>heap := go_copy buf (sample_jpeg 1) (heap reader_init), bw := 5\<rparr>)
          = Inr s
        \<and> candidates s = [sample_jpeg 1])"
proof -
  let ?rs1 = "[Data (sample_jpeg 1)]"
  let ?rs2 = "[Data (sample_jpeg 2)]"
  let ?s0 = "reader_init\<lparr>heap := go_copy buf (sample_jpeg 1) (heap reader_init), bw := 5\<rparr>"
  let ?sl = "\<lparr>base = 1, off = 0, len = 5\<rparr>"
  note t = published_frames_stable
  obtain s1 where r1: "main_loop ?rs1 reader_init = (None, s1)"
    by (simp add: reader_eval)
  obtain r2 s2 where r2: "main_loop (?rs1 @ ?rs2) reader_init = (r2, s2)"
    by (cases "main_loop (?rs1 @ ?rs2) reader_init")
  have 1: "fst (main_loop ?rs1 reader_init) = None" using r1 by simp
  have 2: "sent (snd (main_loop ?rs1 reader_init)) = [?sl]"
    by (simp add: reader_eval)
  have 3: "bytes_of (heap (snd (main_loop ?rs1 reader_init))) \<lparr>base = 0, off = 0, len = 5\<rparr>
      = sample_jpeg 1"
    by (simp add: reader_eval)
  have 4: "bytes_of (heap (snd (main_loop (?rs1 @ ?rs2) reader_init)))
      \<lparr>base = 0, off = 0, len = 5\<rparr> = sample_jpeg 2"
    by (simp add: reader_eval)
  have old: "bytes_of (heap s1) ?sl = sample_jpeg 1"
    using r1 by (auto simp: reader_eval)
  from 2 r1 have "?sl \<in> set (sent s1)" by simp
  with r1 r2 t [of ?rs1 s1 ?rs2 r2 s2]
  have "bytes_of (heap s2) ?sl = bytes_of (heap s1) ?sl" by blast
  with old r2 have 5: "bytes_of (heap (snd (main_loop (?rs1 @ ?rs2) reader_init))) ?sl
      = sample_jpeg 1"
    by simp
  obtain s where b: "extract_body 3 ?s0 = Inr s"
    by (simp add: reader_eval)
  have n: "0 < nexta ?s0" "imgs ?s0 = []" "br ?s0 = 0" "heap ?s0 = go_copy buf (sample_jpeg 1) (heap reader_init)"
    by (simp_all add: reader_init_def)
  from n(1) b t [of _ _ _ _ _ ?s0 3 s] obtain img src where
    i: "imgs s = imgs ?s0 @ [img]"
    and src: "reslice buf (br ?s0) (br ?s0 + (3 + 2)) = Some src"
    and c: "bytes_of (heap s) img = take (len img) (bytes_of (heap ?s0) src)"
    by blast
  from src n have "src = \<lparr>base = 0, off = 0, len = 5\<rparr>"
    by (simp add: reslice_def buf_def bufSize_def)
  with n have "bytes_of (heap ?s0) src = sample_jpeg 1"
    by (simp add: reader_eval)
  moreover from b i n have "len img = 5" by (auto simp: reader_eval)
  ultimately have "bytes_of (heap s) img = sample_jpeg 1"
    using c by (simp add: sample_jpeg_def)
  with i n have "candidates s = [sample_jpeg 1]" by (simp add: candidates_def)
  with b have 6: "\<exists>s. extract_body 3 ?s0 = Inr s \<and> candidates s = [sample_jpeg 1]" by blast
  from 1 2 3 4 5 6 show ?thesis by blast
qed

section \<open>Frames that arrive in reads of their own\<close>

text \<open>
  The unread bytes \<^verbatim>\<open>buf[br:bw]\<close>. A JPEG is clean for the reader when it starts with the
  begin marker and its first end marker is its last two bytes. A state holds the unread
  bytes \<open>p\<close> at the head of the loop when its published frames are in order, the cursors
  are within the buffer and either nothing was extracted since the slide or everything
  read was consumed.
\<close>

definition unread :: "reader \<Rightarrow> byte list" where
  "unread s = bytes_of (heap s) \<lparr>base = 0, off = br s, len = bw s - br s\<rparr>"

definition clean_jpeg :: "frame \<Rightarrow> bool" where
  "clean_jpeg j =
     (bytes_HasPrefix j beginOfJPEG \<and> bytes_Index j endOfJPEG = Some (length j - 2))"

definition partial :: "reader \<Rightarrow> byte list \<Rightarrow> bool" where
  "partial s p =
     (published_ok s \<and> br s \<le> bw s \<and> bw s \<le> bufSize \<and> unread s = p
      \<and> (br s = 0 \<or> br s = bw s))"

lemma length_unread [simp]: "length (unread s) = bw s - br s"
  by (simp add: unread_def)

lemma window_slice:
  "br s \<le> bw s \<Longrightarrow> bw s \<le> bufSize \<Longrightarrow>
     reslice buf (br s) (bw s) = Some \<lparr>base = 0, off = br s, len = bw s - br s\<rparr>"
  by (simp add: reslice_def buf_def)

lemma keeps_frames:
  assumes "keeps s s'" and "published_ok s"
  shows "map (bytes_of (heap s')) (sent s) = frames_sent s"
proof -
  have "bytes_of (heap s') sl = bytes_of (heap s) sl" if "sl \<in> set (sent s)" for sl
  proof -
    from that assms(2) have "0 < base sl" "base sl < nexta s"
      by (auto simp: published_ok_def list_all_iff)
    with assms(1) have "heap s' (base sl) = heap s (base sl)" by (simp add: keeps_def)
    then show ?thesis by (rule bytes_of_same_array)
  qed
  then show ?thesis by (simp add: frames_sent_def)
qed

lemma bytes_of_go_copy_prefix:
  "base sl = base dst \<Longrightarrow> off sl = off dst \<Longrightarrow> len sl \<le> len dst \<Longrightarrow> len sl \<le> length src \<Longrightarrow>
     bytes_of (go_copy dst src h) sl = take (len sl) src"
  by (auto simp: bytes_of_def go_copy_def intro!: nth_equalityI)

lemma slide_spec:
  assumes "br s \<le> bw s" and "bw s \<le> bufSize"
  shows "\<exists>s1. slide s = Inr s1 \<and> br s1 = 0 \<and> bw s1 = bw s - br s \<and> unread s1 = unread s
      \<and> sent s1 = sent s \<and> keeps s s1"
proof (cases "br s > 0")
  case False
  then show ?thesis by (simp add: slide_def keeps_refl)
next
  case True
  let ?src = "\<lparr>base = 0, off = br s, len = bw s - br s\<rparr>"
  let ?s1 = "s\<lparr>heap := go_copy buf (bytes_of (heap s) ?src) (heap s),
      bw := bw s - br s, br := 0\<rparr>"
  from True assms have sl: "slide s = Inr ?s1"
    by (simp add: slide_def window_slice)
  then have k: "keeps s ?s1" by (rule slide_keeps)
  from assms have "unread ?s1 = take (bw s - br s) (unread s)"
    unfolding unread_def
    by (simp add: bytes_of_go_copy_prefix buf_def)
  then have "unread ?s1 = unread s" by simp
  with sl k show ?thesis by simp
qed

lemma fill_unread:
  assumes "br s = 0" and "dst = \<lparr>base = 0, off = bw s, len = n\<rparr>" and "length c \<le> n"
  shows "unread (s\<lparr>heap := go_copy dst c (heap s), bw := bw s + length c\<rparr>) = unread s @ c"
  using assms
  by (auto simp: unread_def bytes_of_def go_copy_def nth_append intro!: nth_equalityI)

text \<open>One slide and one read that fits, from a state with the unread bytes p.\<close>

lemma read_chunk:
  assumes p: "partial s p" and fit: "length p + length c \<le> bufSize"
  shows "\<exists>s1 dst. slide s = Inr s1 \<and> reslice buf (bw s1) (len buf) = Some dst
      \<and> min (len dst) (length c) = length c
      \<and> partial (s1\<lparr>heap := go_copy dst c (heap s1), bw := bw s1 + length c\<rparr>) (p @ c)
      \<and> br (s1\<lparr>heap := go_copy dst c (heap s1), bw := bw s1 + length c\<rparr>) = 0
      \<and> frames_sent (s1\<lparr>heap := go_copy dst c (heap s1), bw := bw s1 + length c\<rparr>)
          = frames_sent s"
proof -
  from p have ok: "published_ok s" and b: "br s \<le> bw s" "bw s \<le> bufSize"
    and u: "unread s = p"
    by (simp_all add: partial_def)
  from slide_spec [OF b] obtain s1 where s1: "slide s = Inr s1" "br s1 = 0"
    "bw s1 = bw s - br s" "unread s1 = unread s" "sent s1 = sent s" "keeps s s1"
    by blast
  from length_unread [of s] u have lp: "length p = bw s - br s" by simp
  let ?dst = "\<lparr>base = 0, off = bw s1, len = bufSize - bw s1\<rparr>"
  let ?s2 = "s1\<lparr>heap := go_copy ?dst c (heap s1), bw := bw s1 + length c\<rparr>"
  from s1 b have d: "reslice buf (bw s1) (len buf) = Some ?dst"
    by (simp add: reslice_def buf_def)
  from fit lp s1 have m: "min (len ?dst) (length c) = length c" by simp
  from d have k2: "keeps s1 ?s2" by (rule fill_keeps)
  with s1(6) have k: "keeps s ?s2" by (rule keeps_trans)
  with ok have ok2: "published_ok ?s2" by (simp add: keeps_def)
  from fit lp s1 have "length c \<le> bufSize - bw s1" by simp
  from fill_unread [OF s1(2) refl this] s1(4) u have u2: "unread ?s2 = p @ c" by simp
  from keeps_frames [OF k ok] s1(5) have f: "frames_sent ?s2 = frames_sent s"
    by (simp add: frames_sent_def)
  from ok2 u2 s1 fit lp have "partial ?s2 (p @ c)" by (simp add: partial_def)
  with s1(1) d m f s1(2) show ?thesis by auto
qed

lemma extract_images_nothing:
  assumes "br s \<le> bw s" and "bw s \<le> bufSize"
    and "bytes_Index (unread s) endOfJPEG = None"
  shows "extract_images s = (None, s)"
  using assms by (simp add: extract_images.simps [of s] window_slice unread_def)

lemma extract_body_succeeds:
  "br s \<le> idx + 2 \<Longrightarrow> br s + (idx + 2) \<le> bufSize \<Longrightarrow> \<exists>s'. extract_body idx s = Inr s'"
  by (auto simp: extract_body_def Let_def reslice_def buf_def endOfJPEG_def)

lemma extract_images_whole:
  assumes p: "partial s j" and z: "br s = 0" and c: "clean_jpeg j"
  shows "\<exists>s'. extract_images s = (None, s') \<and> published_ok s' \<and> br s' = bw s'
      \<and> bw s' \<le> bufSize \<and> frames_sent s' = frames_sent s @ [j]"
proof -
  from p have ok: "published_ok s" and b: "br s \<le> bw s" "bw s \<le> bufSize"
    and u: "unread s = j"
    by (simp_all add: partial_def)
  let ?w = "\<lparr>base = 0, off = br s, len = bw s - br s\<rparr>"
  let ?idx = "length j - 2"
  have e: "length endOfJPEG = 2" by (simp add: endOfJPEG_def)
  from c have i: "bytes_Index j endOfJPEG = Some ?idx" and pre: "bytes_HasPrefix j beginOfJPEG"
    by (simp_all add: clean_jpeg_def)
  from bytes_Index_bound [OF i] e have l2: "?idx + 2 = length j" by simp
  from length_unread [of s] u z have lj: "length j = bw s" by simp
  from window_slice [OF b] have w: "reslice buf (br s) (bw s) = Some ?w" .
  from u i have iw: "bytes_Index (bytes_of (heap s) ?w) endOfJPEG = Some ?idx"
    by (simp add: unread_def)
  from ok have n: "0 < nexta s" by (simp add: published_ok_def)
  from z b l2 lj obtain s1 where s1: "extract_body ?idx s = Inr s1"
    using extract_body_succeeds [of s ?idx] by auto
  from extract_body_Inr [OF s1] obtain img where
    img0: "img = \<lparr>base = nexta s, off = 0, len = ?idx + 2 - br s\<rparr>"
    and im: "imgs s1 = imgs s @ [img]"
    and cur0: "br s1 = br s + (?idx + 2)" "bw s1 = bw s"
    and st: "sent s1 = (if jpeg_framed (bytes_of (heap s1) img) then sent s @ [img] else sent s)"
    by blast
  from img0 im z l2 have img: "len img = length j" "imgs s1 = imgs s @ [img]" by simp_all
  from cur0 z l2 have cur: "br s1 = length j" "bw s1 = bw s" by simp_all
  from extract_body_copy [OF n s1] img(2) obtain src where
    src: "reslice buf (br s) (br s + (?idx + 2)) = Some src"
    and cp: "bytes_of (heap s1) img = take (len img) (bytes_of (heap s) src)"
    by auto
  from src w z l2 lj have "src = ?w" by simp
  with cp u img(1) have bytes: "bytes_of (heap s1) img = j" by (simp add: unread_def)
  from l2 e have "length (drop ?idx j) = length endOfJPEG" by simp
  moreover from bytes_Index_occurs [OF i] obtain zs where
    zs: "drop ?idx j = endOfJPEG @ zs"
    by (auto simp: prefix_def)
  ultimately have "length (endOfJPEG @ zs) = length endOfJPEG" by simp
  then have "zs = []" by simp
  with zs have "drop ?idx j = endOfJPEG" by simp
  with append_take_drop_id [of ?idx j] have "j = take ?idx j @ endOfJPEG" by simp
  then have "bytes_HasSuffix j endOfJPEG"
    unfolding bytes_HasSuffix_def by (rule suffixI)
  with pre bytes st have sent1: "sent s1 = sent s @ [img]" by (simp add: jpeg_framed_def)
  from extract_body_keeps [OF w iw s1] have k: "keeps s s1" .
  with ok have ok1: "published_ok s1" by (simp add: keeps_def)
  from keeps_frames [OF k ok] sent1 bytes have f: "frames_sent s1 = frames_sent s @ [j]"
    by (simp add: frames_sent_def)
  from cur lj b have "extract_images s1 = (None, s1)"
    by (intro extract_images_nothing) (simp_all add: unread_def bytes_of_def endOfJPEG_def)
  with w iw s1 have "extract_images s = (None, s1)"
    by (simp add: extract_images.simps [of s])
  with ok1 cur lj b f show ?thesis by simp
qed

lemma partial_nothing:
  "published_ok s \<Longrightarrow> br s = bw s \<Longrightarrow> bw s \<le> bufSize \<Longrightarrow> partial s []"
  by (simp add: partial_def unread_def bytes_of_def)

lemma chunk_step:
  assumes p: "partial s p" and fit: "length p + length c \<le> bufSize"
  shows "c = [] \<Longrightarrow>
      \<exists>s'. main_loop (Data c # rs) s = main_loop rs s' \<and> partial s' p
        \<and> frames_sent s' = frames_sent s"
    and "c \<noteq> [] \<Longrightarrow> bytes_Index (p @ c) endOfJPEG = None \<Longrightarrow>
      \<exists>s'. main_loop (Data c # rs) s = main_loop rs s' \<and> partial s' (p @ c)
        \<and> frames_sent s' = frames_sent s"
    and "c \<noteq> [] \<Longrightarrow> clean_jpeg (p @ c) \<Longrightarrow>
      \<exists>s'. main_loop (Data c # rs) s = main_loop rs s' \<and> partial s' []
        \<and> frames_sent s' = frames_sent s @ [p @ c]"
proof -
  from read_chunk [OF p fit] obtain s1 dst where
    sl: "slide s = Inr s1" and d: "reslice buf (bw s1) (len buf) = Some dst"
    and m: "min (len dst) (length c) = length c"
    and p2: "partial (s1\<lparr>heap := go_copy dst c (heap s1), bw := bw s1 + length c\<rparr>) (p @ c)"
    and z2: "br (s1\<lparr>heap := go_copy dst c (heap s1), bw := bw s1 + length c\<rparr>) = 0"
    and f2: "frames_sent (s1\<lparr>heap := go_copy dst c (heap s1), bw := bw s1 + length c\<rparr>)
        = frames_sent s"
    by blast
  let ?s2 = "s1\<lparr>heap := go_copy dst c (heap s1), bw := bw s1 + length c\<rparr>"
  note step = main_loop_Data_step [OF sl d, of c, unfolded m]
  {
    assume c: "c = []"
    with step(1) [of rs] have "main_loop (Data c # rs) s = main_loop rs ?s2" by simp
    with p2 f2 c show "\<exists>s'. main_loop (Data c # rs) s = main_loop rs s' \<and> partial s' p
        \<and> frames_sent s' = frames_sent s"
      by auto
  }
  {
    assume c: "c \<noteq> []" and none: "bytes_Index (p @ c) endOfJPEG = None"
    from p2 none have "extract_images ?s2 = (None, ?s2)"
      by (intro extract_images_nothing) (simp_all add: partial_def)
    with step(4) [of ?s2 rs] c have "main_loop (Data c # rs) s = main_loop rs ?s2" by simp
    with p2 f2 show "\<exists>s'. main_loop (Data c # rs) s = main_loop rs s' \<and> partial s' (p @ c)
        \<and> frames_sent s' = frames_sent s"
      by auto
  }
  {
    assume c: "c \<noteq> []" and cl: "clean_jpeg (p @ c)"
    from extract_images_whole [OF p2 z2 cl] obtain s3 where
      s3: "extract_images ?s2 = (None, s3)" "published_ok s3" "br s3 = bw s3"
        "bw s3 \<le> bufSize" "frames_sent s3 = frames_sent ?s2 @ [p @ c]"
      by blast
    with step(4) [of s3 rs] c have "main_loop (Data c # rs) s = main_loop rs s3" by simp
    moreover from s3 have "partial s3 []" by (intro partial_nothing)
    ultimately show "\<exists>s'. main_loop (Data c # rs) s = main_loop rs s' \<and> partial s' []
        \<and> frames_sent s' = frames_sent s @ [p @ c]"
      using s3(5) f2 by auto
  }
qed

lemma empty_reads:
  "partial s p \<Longrightarrow> length p \<le> bufSize \<Longrightarrow> concat cs = [] \<Longrightarrow>
     \<exists>s'. main_loop (map Data cs @ rs) s = main_loop rs s' \<and> partial s' p
       \<and> frames_sent s' = frames_sent s"
proof (induction cs arbitrary: s)
  case Nil
  then show ?case by auto
next
  case (Cons c cs)
  then have c: "c = []" and cs: "concat cs = []" by simp_all
  from Cons.prems(2) c have "length p + length c \<le> bufSize" by simp
  from chunk_step(1) [OF Cons.prems(1) this c, of "map Data cs @ rs"] obtain s1 where
    s1: "main_loop (Data c # map Data cs @ rs) s = main_loop (map Data cs @ rs) s1"
      "partial s1 p" "frames_sent s1 = frames_sent s"
    by blast
  from Cons.IH [OF s1(2) Cons.prems(2) cs] s1 show ?case by auto
qed

lemma clean_jpeg_length: "clean_jpeg j \<Longrightarrow> 2 \<le> length j"
  by (auto simp: clean_jpeg_def endOfJPEG_def dest: bytes_Index_bound)

lemma frame_reads:
  "partial s p \<Longrightarrow> clean_jpeg j \<Longrightarrow> length j \<le> bufSize \<Longrightarrow> p @ concat cs = j \<Longrightarrow> p \<noteq> j \<Longrightarrow>
     \<exists>s'. main_loop (map Data cs @ rs) s = main_loop rs s' \<and> partial s' []
       \<and> frames_sent s' = frames_sent s @ [j]"
proof (induction cs arbitrary: s p)
  case Nil
  then show ?case by simp
next
  case (Cons c cs)
  let ?rs = "map Data cs @ rs"
  from Cons.prems(3,4) have fit: "length p + length c \<le> bufSize" by auto
  show ?case
  proof (cases "c = []")
    case True
    from chunk_step(1) [OF Cons.prems(1) fit True, of ?rs] obtain s1 where
      s1: "main_loop (Data c # ?rs) s = main_loop ?rs s1" "partial s1 p"
        "frames_sent s1 = frames_sent s"
      by blast
    from Cons.prems(4) True have "p @ concat cs = j" by simp
    from Cons.IH [OF s1(2) Cons.prems(2,3) this Cons.prems(5)] s1 show ?thesis by auto
  next
    case False
    note c = this
    show ?thesis
    proof (cases "p @ c = j")
      case True
      with Cons.prems(2) have "clean_jpeg (p @ c)" by simp
      from chunk_step(3) [OF Cons.prems(1) fit c this, of ?rs] obtain s1 where
        s1: "main_loop (Data c # ?rs) s = main_loop ?rs s1" "partial s1 []"
          "frames_sent s1 = frames_sent s @ [p @ c]"
        by blast
      from True Cons.prems(4) have "concat cs = []"
        by (auto simp del: concat_eq_Nil_conv Nil_eq_concat_conv)
      from empty_reads [OF s1(2) _ this, of rs] obtain s2 where
        "main_loop ?rs s1 = main_loop rs s2" "partial s2 []" "frames_sent s2 = frames_sent s1"
        by auto
      with s1 True show ?thesis by auto
    next
      case False
      with Cons.prems(4) have "strict_prefix (p @ c) j"
        by (auto simp: strict_prefix_def prefix_def)
      moreover from Cons.prems(2)
      have "bytes_Index j endOfJPEG = Some (length j - length endOfJPEG)"
        by (simp add: clean_jpeg_def endOfJPEG_def)
      ultimately have "bytes_Index (p @ c) endOfJPEG = None"
        by (intro bytes_Index_strict_prefix [of j]) (simp_all add: endOfJPEG_def)
      from chunk_step(2) [OF Cons.prems(1) fit c this, of ?rs] obtain s1 where
        s1: "main_loop (Data c # ?rs) s = main_loop ?rs s1" "partial s1 (p @ c)"
          "frames_sent s1 = frames_sent s"
        by blast
      from Cons.prems(4) have "(p @ c) @ concat cs = j" by simp
      from Cons.IH [OF s1(2) Cons.prems(2,3) this False] s1 show ?thesis by auto
    qed
  qed
qed

lemma all_frame_reads:
  "partial s [] \<Longrightarrow> list_all clean_jpeg (map concat css) \<Longrightarrow>
   list_all (\<lambda>cs. length (concat cs) \<le> bufSize) css \<Longrightarrow>
     \<exists>s'. main_loop (map Data (concat css) @ rs) s = main_loop rs s' \<and> partial s' []
       \<and> frames_sent s' = frames_sent s @ map concat css"
proof (induction css arbitrary: s)
  case Nil
  then show ?case by auto
next
  case (Cons cs css)
  let ?rs = "map Data (concat css) @ rs"
  from Cons.prems have cl: "clean_jpeg (concat cs)" and le: "length (concat cs) \<le> bufSize"
    by simp_all
  from clean_jpeg_length [OF cl] have ne: "[] \<noteq> concat cs"
    by (auto simp del: concat_eq_Nil_conv Nil_eq_concat_conv)
  from frame_reads [OF Cons.prems(1) cl le _ ne, of cs ?rs] obtain s1 where
    s1: "main_loop (map Data cs @ ?rs) s = main_loop ?rs s1" "partial s1 []"
      "frames_sent s1 = frames_sent s @ [concat cs]"
    by auto
  from Cons.prems have "list_all clean_jpeg (map concat css)"
    and "list_all (\<lambda>cs. length (concat cs) \<le> bufSize) css"
    by simp_all
  from Cons.IH [OF s1(2) this, of ] obtain s2 where
    "main_loop ?rs s1 = main_loop rs s2" "partial s2 []"
    "frames_sent s2 = frames_sent s1 @ map concat css"
    by blast
  with s1 show ?case by auto
qed

text \<open>
  What does hold of claim C1: when every JPEG is clean, fits the buffer and arrives in
  reads of its own (\<open>css\<close> lists, for each JPEG, the reads that deliver it, however they
  cut it, markers included, empty reads allowed), the reader hands on exactly these
  JPEGs, byte for byte and in order, and then waits for more input.
\<close>

theorem reads_within_frames:
  assumes "list_all clean_jpeg (map concat css)"
    and "list_all (\<lambda>cs. length (concat cs) \<le> bufSize) css"
  shows "\<exists>s. main_loop (map Data (concat css)) reader_init = (None, s)
    \<and> frames_sent s = map concat css"
proof -
  have "partial reader_init []"
    by (intro partial_nothing published_ok_init) (simp_all add: reader_init_def)
  from all_frame_reads [OF this assms, of "[]"] obtain s1 where
    s1: "main_loop (map Data (concat css)) reader_init = main_loop [] s1" "partial s1 []"
      "frames_sent s1 = frames_sent reader_init @ map concat css"
    by auto
  from s1(2) have b: "br s1 \<le> bw s1" "bw s1 \<le> bufSize" and ok: "published_ok s1"
    by (simp_all add: partial_def)
  from slide_spec [OF b] obtain s2 where
    s2: "slide s1 = Inr s2" "sent s2 = sent s1" "keeps s1 s2"
    by blast
  from keeps_frames [OF s2(3) ok] s2(2) have "frames_sent s2 = frames_sent s1"
    by (simp add: frames_sent_def)
  moreover from s2(1) have "main_loop [] s1 = (None, s2)" by (simp add: main_loop.simps)
  moreover have "frames_sent reader_init = []" by (simp add: frames_sent_def reader_init_def)
  ultimately show ?thesis using s1 by auto
qed

lemma reads_within_frames_example:
  "list_all clean_jpeg (map concat [[[0xff, 0xd8, 1, 0xff], [], [0xd9]], [[0xff], [0xd8, 2, 0xff, 0xd9]]])
   \<and> (\<exists>s. main_loop (map Data (concat
          [[[0xff, 0xd8, 1, 0xff], [], [0xd9]], [[0xff], [0xd8, 2, 0xff, 0xd9]]])) reader_init
        = (None, s)
      \<and> frames_sent s = [sample_jpeg 1, sample_jpeg 2])"
proof -
  let ?css = "[[[0xff, 0xd8, 1, 0xff], [], [0xd9]], [[0xff], [0xd8, 2, 0xff, 0xd9 :: byte]]]"
  have c: "list_all clean_jpeg (map concat ?css)"
    by (simp add: clean_jpeg_def bytes_HasPrefix_def beginOfJPEG_def endOfJPEG_def)
  have l: "list_all (\<lambda>cs. length (concat cs) \<le> bufSize) ?css"
    by (simp add: bufSize_def)
  from reads_within_frames [OF c l] c show ?thesis
    by (simp add: sample_jpeg_def)
qed

text \<open>
  What does hold of claim C10: the first end marker of a published frame is its last
  two bytes, so a published frame holds the end marker at its end and nowhere before.
\<close>

lemma published_single_marker:
  "main_loop rs reader_init = (r, s) \<Longrightarrow>
     list_all (\<lambda>b. bytes_Index b endOfJPEG = Some (length b - 2)) (frames_sent s)"
proof -
  assume "main_loop rs reader_init = (r, s)"
  then have "published_ok s" by (rule main_loop_published_ok)
  then show ?thesis
    by (auto simp: published_ok_def frames_sent_def list_all_iff)
qed

section \<open>Two frames in one read\<close>

text \<open>
  Claim C1 fails on the code: line 127 makes \<^verbatim>\<open>img\<close> with the length \<^verbatim>\<open>eoj-br\<close>, where
  \<^verbatim>\<open>eoj\<close> is already relative to \<^verbatim>\<open>br\<close>. The first image of a pass is copied whole
  (\<^verbatim>\<open>br\<close> is 0 after the slide); a further image found in the same pass is cut short or
  makes \<^verbatim>\<open>make\<close> panic. Two JPEGs of five bytes delivered by one read give one frame,
  and the loop goes on; the same bytes delivered by two reads give both frames, also
  when the reads split the end marker of the first and the begin marker of the second;
  a JPEG of six bytes followed in the same read by one of five stops the program with
  the panic of \<^verbatim>\<open>make\<close>.
\<close>

theorem two_frames_one_read:
  "frames_sent (snd (main_loop [Data (sample_jpeg 1 @ sample_jpeg 2)] reader_init))
     = [sample_jpeg 1]
   \<and> fst (main_loop [Data (sample_jpeg 1 @ sample_jpeg 2)] reader_init) = None
   \<and> frames_sent (snd (main_loop [Data (sample_jpeg 1), Data (sample_jpeg 2)] reader_init))
     = [sample_jpeg 1, sample_jpeg 2]
   \<and> frames_sent (snd (main_loop
        [Data [0xff, 0xd8, 1, 0xff], Data [0xd9, 0xff], Data [0xd8, 2, 0xff, 0xd9]] reader_init))
     = [sample_jpeg 1, sample_jpeg 2]
   \<and> fst (main_loop [Data ([0xff, 0xd8, 1, 2, 0xff, 0xd9] @ sample_jpeg 2)] reader_init)
     = Some Panic_makeslice"
  by (simp add: reader_eval)

text \<open>
  Claim C10 fails on the code for the same reason: the candidate \<^verbatim>\<open>img\<close> of a second
  image in one pass is not the span up to the end marker but a cut of it. After two
  JPEGs of five bytes in one read the second candidate is empty; after a JPEG of five
  bytes and one of seven it is the two bytes FF D8. Neither holds the end marker.
\<close>

theorem second_candidate_cut:
  "candidates (snd (main_loop [Data (sample_jpeg 1 @ sample_jpeg 2)] reader_init))
     = [sample_jpeg 1, []]
   \<and> candidates (snd (main_loop
        [Data (sample_jpeg 1 @ [0xff, 0xd8, 1, 2, 3, 0xff, 0xd9])] reader_init))
     = [sample_jpeg 1, [0xff, 0xd8]]"
  by (simp add: reader_eval)

section \<open>The order in which a subscriber sees frames\<close>







lemma map_arg_update:
  "i < length gs \<Longrightarrow> map arg (gs[i := (gs ! i)\<lparr>pc := p\<rparr>]) = map arg gs"
  by (simp add: map_update list_update_same_conv)


lemma goto_fields [simp]:
  "the_hub (goto i p w) = the_hub w"
  "handed (goto i p w) = handed w"
  "enqueued (goto i p w) = enqueued w"
  "dropped (goto i p w) = dropped w"
  "delivered (goto i p w) = delivered w"
  "goroutines (goto i p w) = (goroutines w)[i := (goroutines w ! i)\<lparr>pc := p\<rparr>]"
  by (simp_all add: goto_def)
















lemmas sched_eval = world_of_def received_def queue_of_def sent_to_def dropped_for_def
  registerImgChan_def deregisterImgChan_def make_chan_def hub_init_def chan_send_def
  chan_recv_def maxBacklog_def sample_jpeg_def goto_def lock_free_def all_returned_def
  to_come_def yet_to_visit_def



text \<open>
  The calls overlap, and each ranges over the registry in an order of its own: of two
  subscribers, one is sent the first frame and then the second, the other the second
  and then the first.
\<close>

lemma subscribers_disagree:
  "(case run [Go_sendImage (sample_jpeg 1), Go_sendImage (sample_jpeg 2),
              Begin 0 [''a'', ''b''], Begin 1 [''b'', ''a''],
              Test 0, Send 0, Test 1, Send 1, Test 0, Send 0, Test 1, Send 1,
              Test 0, Test 1]
          (world_of (registerImgChan ''b'' (make_chan 10)
             (registerImgChan ''a'' (make_chan 10) hub_init))) of
      Inl e \<Rightarrow> None
    | Inr w \<Rightarrow> Some (queue_of ''a'' (the_hub w), queue_of ''b'' (the_hub w), all_returned w))
   = Some ([sample_jpeg 1, sample_jpeg 2], [sample_jpeg 2, sample_jpeg 1], True)"
  by (simp add: sched_eval insert_commute)

end
